theory Spec2Isabelle
  imports Main "HOL-Library.Word" "HOL-Library.Multiset"
begin

section \<open>Broadcast chat server: cache, client rotation, worker pool, broadcaster\<close>

text \<open>
  A shallow embedding of the C++ sources: \<^verbatim>\<open>cache.cpp\<close> (class MessageCache),
  \<^verbatim>\<open>scheduler.cpp\<close> (class RoundRobinScheduler), \<^verbatim>\<open>thread_pool.cpp\<close> (class
  ThreadPool) and \<^verbatim>\<open>server.cpp\<close> (broadcast_message, handle_client), with the structs
  of \<^verbatim>\<open>common.h\<close>.

  Conventions. Objects are records, and a member function takes the object and returns
  the new one. The clock \<^verbatim>\<open>time(nullptr)\<close>, the result of \<^verbatim>\<open>send\<close> and the result of
  \<^verbatim>\<open>recv\<close> are inputs of the function that reads them. \<^verbatim>\<open>time_t\<close> values are
  \<open>int\<close>; \<^verbatim>\<open>uint64_t\<close> counters are \<open>64 word\<close> and wrap. The C++ \<^verbatim>\<open>int\<close>s that count
  or index slots (size, capacity after construction, slot indices) are never negative in
  the source (they start at 0 and are only incremented, reset to 0, or copied), so they
  are \<open>nat\<close>; the guard \<^verbatim>\<open>index >= 0\<close> of the source is then always true and is not
  written. The cache, the rotation and the broadcaster are embedded as sequential code,
  one call at a time, and their mutexes are not modelled, except where a thread locks a
  mutex that it holds already and so never returns (\<^verbatim>\<open>update_metrics\<close>). The worker pool
  is a step relation whose steps are the critical sections of the source.
\<close>

subsection \<open>common.h: CacheEntry\<close>

record CacheEntry =
  message_id :: string
  content :: string
  sender :: string
  timestamp :: int
  last_access :: int
  access_count :: int
  valid :: bool

text \<open>The default constructor \<^verbatim>\<open>CacheEntry()\<close>.\<close>

definition CacheEntry_default :: CacheEntry where
  "CacheEntry_default =
     \<lparr>message_id = [], content = [], sender = [], timestamp = 0, last_access = 0,
      access_count = 0, valid = False\<rparr>"

subsection \<open>cache.cpp: MessageCache\<close>

text \<open>
  The fields \<^verbatim>\<open>head\<close> and \<^verbatim>\<open>tail\<close> of the class are set to 0 by the constructor and
  never read or written again; they are left out. \<^verbatim>\<open>size\<close> is named \<open>cache_size\<close>.
  \<^verbatim>\<open>index_map\<close> is the \<^verbatim>\<open>unordered_map<string,int>\<close>.
\<close>

record MessageCache =
  cache :: "CacheEntry list"
  capacity :: nat
  cache_size :: nat
  index_map :: "string \<rightharpoonup> nat"
  hits :: "64 word"
  misses :: "64 word"

datatype error = InvalidArgument string | RuntimeError string

text \<open>
  The constructor: the member initialisers and \<^verbatim>\<open>cache.resize(capacity)\<close> give
  \<open>MessageCache_init\<close>; it throws \<^verbatim>\<open>std::invalid_argument\<close> when \<^verbatim>\<open>capacity <= 0\<close>.
\<close>

definition MessageCache_init :: "nat \<Rightarrow> MessageCache" where
  "MessageCache_init cap =
     \<lparr>cache = replicate cap CacheEntry_default, capacity = cap,
      cache_size = 0, index_map = Map.empty, hits = 0, misses = 0\<rparr>"

definition MessageCache_new :: "int \<Rightarrow> error + MessageCache" where
  "MessageCache_new cap =
     (if cap \<le> 0 then Inl (InvalidArgument ''Cache capacity must be positive'')
      else Inr (MessageCache_init (nat cap)))"

text \<open>\<^verbatim>\<open>ss << timestamp\<close>: a \<^verbatim>\<open>time_t\<close> printed in decimal, with a minus sign when negative.\<close>

fun dec_digits :: "nat \<Rightarrow> string" where
  "dec_digits n =
     (if n < 10 then [''0123456789'' ! n]
      else dec_digits (n div 10) @ [''0123456789'' ! (n mod 10)])"

declare dec_digits.simps [simp del]

definition to_string :: "int \<Rightarrow> string" where
  "to_string i = (if i < 0 then CHR ''-'' # dec_digits (nat (- i)) else dec_digits (nat i))"

definition generate_message_id :: "string \<Rightarrow> int \<Rightarrow> string" where
  "generate_message_id sndr ts = sndr @ ''_'' @ to_string ts"

text \<open>
  \<^verbatim>\<open>find_lru_index\<close>: the loop \<^verbatim>\<open>for (i = 1; i < size; ++i)\<close> carries \<^verbatim>\<open>lru_index\<close> and
  \<^verbatim>\<open>oldest_access\<close>. Slot 0 is the starting candidate and its \<^verbatim>\<open>valid\<close> flag is not
  tested.
\<close>

function find_lru_loop :: "CacheEntry list \<Rightarrow> nat \<Rightarrow> nat \<Rightarrow> nat \<Rightarrow> int \<Rightarrow> nat" where
  "find_lru_loop es sz i lru_index oldest_access =
     (if i < sz then
        (if valid (es ! i) \<and> last_access (es ! i) < oldest_access
         then find_lru_loop es sz (Suc i) i (last_access (es ! i))
         else find_lru_loop es sz (Suc i) lru_index oldest_access)
      else lru_index)"
  by pat_completeness auto
termination
  by (relation "measure (\<lambda>(es, sz, i, l, a). sz - i)") auto

declare find_lru_loop.simps [simp del]

definition find_lru_index :: "MessageCache \<Rightarrow> nat" where
  "find_lru_index c =
     (if cache_size c = 0 then 0
      else find_lru_loop (cache c) (cache_size c) 1 0 (last_access (cache c ! 0)))"

text \<open>
  \<^verbatim>\<open>insert(sender, content, timestamp)\<close>; \<open>now\<close> is the value of \<^verbatim>\<open>time(nullptr)\<close>.
  The result is the returned bool and the cache after the call.
\<close>

definition new_entry :: "string \<Rightarrow> string \<Rightarrow> string \<Rightarrow> int \<Rightarrow> int \<Rightarrow> CacheEntry" where
  "new_entry msg_id cont sndr ts now =
     \<lparr>message_id = msg_id, content = cont, sender = sndr, timestamp = ts,
      last_access = now, access_count = 1, valid = True\<rparr>"

definition insert_cache :: "MessageCache \<Rightarrow> string \<Rightarrow> string \<Rightarrow> int \<Rightarrow> int \<Rightarrow> bool \<times> MessageCache" where
  "insert_cache c sndr cont ts now =
     (let msg_id = generate_message_id sndr ts in
      if index_map c msg_id \<noteq> None then (False, c)
      else if cache_size c < capacity c then
        (let insert_index = cache_size c in
         (True, c\<lparr>cache := (cache c)[insert_index := new_entry msg_id cont sndr ts now],
                  cache_size := cache_size c + 1,
                  index_map := (index_map c)(msg_id \<mapsto> insert_index)\<rparr>))
      else
        (let insert_index = find_lru_index c;
             im = (if valid (cache c ! insert_index)
                   then (index_map c)(message_id (cache c ! insert_index) := None)
                   else index_map c) in
         (True, c\<lparr>cache := (cache c)[insert_index := new_entry msg_id cont sndr ts now],
                  index_map := im(msg_id \<mapsto> insert_index)\<rparr>)))"

text \<open>
  \<^verbatim>\<open>lookup(message_id, content)\<close>: the result is the returned bool, the value left in the
  out-parameter (\<open>None\<close> when it is not assigned) and the cache after the call.
\<close>

definition lookup :: "MessageCache \<Rightarrow> string \<Rightarrow> bool \<times> string option \<times> MessageCache" where
  "lookup c mid =
     (case index_map c mid of
        Some index \<Rightarrow>
          if index < cache_size c \<and> valid (cache c ! index)
          then (True, Some (content (cache c ! index)), c\<lparr>hits := hits c + 1\<rparr>)
          else (False, None, c\<lparr>misses := misses c + 1\<rparr>)
      | None \<Rightarrow> (False, None, c\<lparr>misses := misses c + 1\<rparr>))"

text \<open>
  \<^verbatim>\<open>access_count\<close> is a C++ \<^verbatim>\<open>int\<close> of 32 bits and \<^verbatim>\<open>time_t\<close> is a signed integer of 64
  bits. Where the source does arithmetic on them that can leave the range, the model
  writes out the two's complement wrap-around that the compiled program performs:
  \<^verbatim>\<open>INT_MAX + 1\<close> is \<^verbatim>\<open>INT_MIN\<close>.
\<close>

definition int32_wrap :: "int \<Rightarrow> int" where
  "int32_wrap k = signed_take_bit 31 k"

definition int64_wrap :: "int \<Rightarrow> int" where
  "int64_wrap k = signed_take_bit 63 k"

definition INT_MAX :: int where "INT_MAX = 2147483647"
definition INT_MIN :: int where "INT_MIN = - 2147483648"

definition update_access :: "MessageCache \<Rightarrow> string \<Rightarrow> int \<Rightarrow> MessageCache" where
  "update_access c mid now =
     (case index_map c mid of
        Some index \<Rightarrow>
          if index < cache_size c \<and> valid (cache c ! index)
          then c\<lparr>cache := (cache c)[index := (cache c ! index)
                     \<lparr>last_access := now,
                      access_count := int32_wrap (access_count (cache c ! index) + 1)\<rparr>]\<rparr>
          else c
      | None \<Rightarrow> c)"

definition clear_entry :: "CacheEntry \<Rightarrow> CacheEntry" where
  "clear_entry e = e\<lparr>valid := False, message_id := [], content := [], sender := []\<rparr>"

definition clear :: "MessageCache \<Rightarrow> MessageCache" where
  "clear c =
     c\<lparr>cache := map clear_entry (take (cache_size c) (cache c)) @ drop (cache_size c) (cache c),
       index_map := Map.empty, cache_size := 0, hits := 0, misses := 0\<rparr>"

definition get_size :: "MessageCache \<Rightarrow> nat" where
  "get_size c = cache_size c"

text \<open>A sequence of calls on one cache.\<close>

datatype cache_op =
    Insert string string int int
  | Lookup string
  | UpdateAccess string int
  | Clear

fun apply_op :: "MessageCache \<Rightarrow> cache_op \<Rightarrow> MessageCache" where
  "apply_op c (Insert sndr cont ts now) = snd (insert_cache c sndr cont ts now)"
| "apply_op c (Lookup mid) = snd (snd (lookup c mid))"
| "apply_op c (UpdateAccess mid now) = update_access c mid now"
| "apply_op c Clear = clear c"

definition run_ops :: "MessageCache \<Rightarrow> cache_op list \<Rightarrow> MessageCache" where
  "run_ops c ops = foldl apply_op c ops"

text \<open>
  The representation invariant of the cache: the slot vector has \<open>capacity\<close> slots, the
  slots below \<open>cache_size\<close> are exactly the valid ones in use, and \<open>index_map\<close> holds
  exactly the fingerprints of those slots, each mapped to its slot.
\<close>

definition cache_inv :: "MessageCache \<Rightarrow> bool" where
  "cache_inv c \<longleftrightarrow>
     0 < capacity c \<and> length (cache c) = capacity c \<and> cache_size c \<le> capacity c \<and>
     (\<forall>i < cache_size c. valid (cache c ! i) \<and> index_map c (message_id (cache c ! i)) = Some i) \<and>
     (\<forall>k i. index_map c k = Some i \<longrightarrow>
        i < cache_size c \<and> valid (cache c ! i) \<and> message_id (cache c ! i) = k)"

text \<open>
  Slot \<open>j\<close> is the least recently used live slot: it is valid, no valid slot has a
  smaller last-access time, and every valid slot before it has a strictly larger one.
\<close>

definition is_lru :: "MessageCache \<Rightarrow> nat \<Rightarrow> bool" where
  "is_lru c j \<longleftrightarrow>
     j < cache_size c \<and> valid (cache c ! j) \<and>
     (\<forall>i < cache_size c. valid (cache c ! i) \<longrightarrow>
        last_access (cache c ! j) \<le> last_access (cache c ! i)) \<and>
     (\<forall>i < j. valid (cache c ! i) \<longrightarrow>
        last_access (cache c ! j) < last_access (cache c ! i))"

text \<open>Every access count of the slot vector is a value of a 32-bit \<^verbatim>\<open>int\<close>.\<close>

definition counts_in_range :: "MessageCache \<Rightarrow> bool" where
  "counts_in_range c \<longleftrightarrow>
     (\<forall>e \<in> set (cache c). INT_MIN \<le> access_count e \<and> access_count e \<le> INT_MAX)"

text \<open>
  A small cache in the manner of the eviction test of \<^verbatim>\<open>cache_test.cpp\<close>: capacity 2,
  two entries, the second one with the older last-access time, and one lookup.
\<close>

definition lru_fixture :: MessageCache where
  "lru_fixture =
     run_ops (MessageCache_init 2) [Insert ''a'' ''x'' 1 10, Insert ''b'' ''y'' 2 5, Lookup ''a_1'']"


subsection \<open>scheduler.h, scheduler.cpp: RoundRobinScheduler\<close>

text \<open>
  The nodes of the circular list live in a store: \<open>nodes\<close> is the list of all objects
  made by \<^verbatim>\<open>new ScheduledClient\<close>, a pointer is an index into it, and \<^verbatim>\<open>nullptr\<close> is
  \<open>None\<close>. \<^verbatim>\<open>new\<close> returns the next unused index. The field \<^verbatim>\<open>next\<close> is named
  \<open>next_client\<close>. Dereferencing \<^verbatim>\<open>nullptr\<close> or an index outside the store is undefined
  in the source; a function that would do so has no result (\<open>None\<close>).
\<close>

type_synonym addr = nat

record ScheduledClient =
  socket_fd :: int
  user_id :: string
  last_scheduled :: int
  next_client :: "addr option"

record RoundRobinScheduler =
  nodes :: "ScheduledClient list"
  head :: "addr option"
  current :: "addr option"
  client_count :: int
  time_quantum_ms :: int

definition RoundRobinScheduler_new :: "int \<Rightarrow> error + RoundRobinScheduler" where
  "RoundRobinScheduler_new quantum_ms =
     (if quantum_ms \<le> 0 then Inl (InvalidArgument ''Time quantum must be positive'')
      else Inr \<lparr>nodes = [], head = None, current = None, client_count = 0,
                time_quantum_ms = quantum_ms\<rparr>)"

text \<open>
  The first loop of \<^verbatim>\<open>add_client\<close>:
  \<^verbatim>\<open>do { if (temp->socket_fd == socket_fd) return; temp = temp->next; } while (temp != head);\<close>
  The result says whether the descriptor was found. The loop runs forever on a list that
  does not lead back to \<^verbatim>\<open>head\<close>, hence the partial function.
\<close>

partial_function (option) exists_loop ::
  "ScheduledClient list \<Rightarrow> addr \<Rightarrow> addr \<Rightarrow> int \<Rightarrow> bool option" where
  "exists_loop h hp temp fd =
     (if \<not> temp < length h then None
      else if socket_fd (h ! temp) = fd then Some True
      else (case next_client (h ! temp) of
              None \<Rightarrow> None
            | Some t \<Rightarrow> if t = hp then Some False else exists_loop h hp t fd))"

text \<open>
  The second loop: \<^verbatim>\<open>while (last->next != head) last = last->next;\<close> with \<open>lst\<close> for
  the variable \<^verbatim>\<open>last\<close> (and \<open>hp\<close> for the pointer \<^verbatim>\<open>head\<close>).
\<close>

partial_function (option) last_loop ::
  "ScheduledClient list \<Rightarrow> addr \<Rightarrow> addr \<Rightarrow> addr option" where
  "last_loop h hp lst =
     (if \<not> lst < length h then None
      else (case next_client (h ! lst) of
              None \<Rightarrow> None
            | Some t \<Rightarrow> if t = hp then Some lst else last_loop h hp t))"

text \<open>
  \<^verbatim>\<open>add_client(socket_fd, user_id)\<close>. The new node is built by the constructor with
  \<^verbatim>\<open>last_scheduled = 0\<close> and \<^verbatim>\<open>next = nullptr\<close>, and its \<^verbatim>\<open>next\<close> is assigned before the
  function returns: to itself for the first client, to \<^verbatim>\<open>head\<close> otherwise.
  \<^verbatim>\<open>client_count\<close> is a 32-bit \<^verbatim>\<open>int\<close>.
\<close>

definition add_client :: "RoundRobinScheduler \<Rightarrow> int \<Rightarrow> string \<Rightarrow> RoundRobinScheduler option" where
  "add_client s fd uid =
     (let new_client = length (nodes s) in
      case head s of
        None \<Rightarrow>
          Some (s\<lparr>nodes := nodes s @ [\<lparr>socket_fd = fd, user_id = uid, last_scheduled = 0,
                                        next_client = Some new_client\<rparr>],
                  head := Some new_client, current := Some new_client,
                  client_count := int32_wrap (client_count s + 1)\<rparr>)
      | Some hp \<Rightarrow>
          (case exists_loop (nodes s) hp hp fd of
             None \<Rightarrow> None
           | Some True \<Rightarrow> Some s
           | Some False \<Rightarrow>
               (case last_loop (nodes s) hp hp of
                  None \<Rightarrow> None
                | Some lst \<Rightarrow>
                    Some (s\<lparr>nodes := (nodes s)[lst := (nodes s ! lst)\<lparr>next_client := Some new_client\<rparr>]
                                       @ [\<lparr>socket_fd = fd, user_id = uid, last_scheduled = 0,
                                           next_client = Some hp\<rparr>],
                            client_count := int32_wrap (client_count s + 1)\<rparr>))))"

text \<open>
  \<^verbatim>\<open>get_next_client()\<close>; \<open>now\<close> is the value of \<^verbatim>\<open>time(nullptr)\<close>. The result is the
  returned pointer and the scheduler after the call.
\<close>

definition get_next_client :: "RoundRobinScheduler \<Rightarrow> int \<Rightarrow> addr option \<times> RoundRobinScheduler" where
  "get_next_client s now =
     (case current s of
        None \<Rightarrow> (None, s)
      | Some selected \<Rightarrow>
          (Some selected,
           s\<lparr>nodes := (nodes s)[selected := (nodes s ! selected)\<lparr>last_scheduled := now\<rparr>],
             current := next_client (nodes s ! selected)\<rparr>))"

text \<open>
  What the caller sees through the pointer returned by \<^verbatim>\<open>get_next_client\<close>: descriptor,
  user and last-scheduled time of the node, read right after the call.
\<close>

definition selected_client ::
  "addr option \<times> RoundRobinScheduler \<Rightarrow> (int \<times> string \<times> int) option" where
  "selected_client r =
     (case fst r of
        None \<Rightarrow> None
      | Some a \<Rightarrow> Some (socket_fd (nodes (snd r) ! a), user_id (nodes (snd r) ! a),
                        last_scheduled (nodes (snd r) ! a)))"

text \<open>Consecutive calls of \<^verbatim>\<open>get_next_client\<close>, one for each clock value of the list.\<close>

fun next_calls :: "RoundRobinScheduler \<Rightarrow> int list \<Rightarrow> (int \<times> string \<times> int) option list" where
  "next_calls s [] = []"
| "next_calls s (t # ts) =
     selected_client (get_next_client s t) # next_calls (snd (get_next_client s t)) ts"

text \<open>
  The store of a ring of the clients \<open>cs\<close> in insertion order, node \<open>i\<close> linked to node
  \<open>i + 1\<close> and the last node back to node 0, with last-scheduled times \<open>st\<close>.
\<close>

definition ring_nodes :: "(int \<times> string) list \<Rightarrow> int list \<Rightarrow> ScheduledClient list" where
  "ring_nodes cs st =
     map (\<lambda>i. \<lparr>socket_fd = fst (cs ! i), user_id = snd (cs ! i), last_scheduled = st ! i,
               next_client = Some (Suc i mod length cs)\<rparr>) [0..<length cs]"

text \<open>
  The scheduler whose ring holds the clients \<open>cs\<close>, with the cursor on node \<open>cur\<close>.
\<close>

definition ring_state :: "int \<Rightarrow> (int \<times> string) list \<Rightarrow> int list \<Rightarrow> addr \<Rightarrow> RoundRobinScheduler" where
  "ring_state q cs st cur =
     \<lparr>nodes = ring_nodes cs st,
      head = (if cs = [] then None else Some 0),
      current = (if cs = [] then None else Some cur),
      client_count = int32_wrap (int (length cs)), time_quantum_ms = q\<rparr>"

text \<open>
  A sequence of calls on one scheduler, with no \<^verbatim>\<open>remove_client\<close> among them:
  \<^verbatim>\<open>add_client(fd, user)\<close> and \<^verbatim>\<open>get_next_client()\<close> at a clock value.
\<close>

datatype sched_op = Add int string | Next int

fun run_sched :: "RoundRobinScheduler \<Rightarrow> sched_op list \<Rightarrow> RoundRobinScheduler option" where
  "run_sched s [] = Some s"
| "run_sched s (Add fd uid # ops) =
     (case add_client s fd uid of None \<Rightarrow> None | Some s' \<Rightarrow> run_sched s' ops)"
| "run_sched s (Next t # ops) = run_sched (snd (get_next_client s t)) ops"

text \<open>
  The observations of \<^verbatim>\<open>get_next_client\<close> calls at the clock values \<open>ts\<close>, made after
  the calls \<open>ops\<close>.
\<close>

definition calls_after ::
  "RoundRobinScheduler \<Rightarrow> sched_op list \<Rightarrow> int list \<Rightarrow> (int \<times> string \<times> int) option list option" where
  "calls_after s ops ts =
     (case run_sched s ops of None \<Rightarrow> None | Some s' \<Rightarrow> Some (next_calls s' ts))"

text \<open>
  The clients that a sequence of calls registers, in insertion order: an \<open>Add\<close> of a
  descriptor that is already registered adds nothing.
\<close>

fun registered_from :: "(int \<times> string) list \<Rightarrow> sched_op list \<Rightarrow> (int \<times> string) list" where
  "registered_from cs [] = cs"
| "registered_from cs (Add fd uid # ops) =
     registered_from (if fd \<in> fst ` set cs then cs else cs @ [(fd, uid)]) ops"
| "registered_from cs (Next t # ops) = registered_from cs ops"

definition registered :: "sched_op list \<Rightarrow> (int \<times> string) list" where
  "registered ops = registered_from [] ops"

text \<open>
  The rotation as an index-addressed sequence: the clients, their last-scheduled times
  and the index of the cursor. One call on this representation.
\<close>

fun ring_step ::
  "(int \<times> string) list \<times> int list \<times> nat \<Rightarrow> sched_op \<Rightarrow> (int \<times> string) list \<times> int list \<times> nat" where
  "ring_step (cs, st, cur) (Add fd uid) =
     (if fd \<in> fst ` set cs then (cs, st, cur) else (cs @ [(fd, uid)], st @ [0], cur))"
| "ring_step (cs, st, cur) (Next t) =
     (if cs = [] then (cs, st, cur) else (cs, st[cur := t], Suc cur mod length cs))"

text \<open>The freshly constructed scheduler with the default quantum \<^verbatim>\<open>TIME_QUANTUM_MS\<close>.\<close>

definition fresh_rotation :: RoundRobinScheduler where
  "fresh_rotation =
     \<lparr>nodes = [], head = None, current = None, client_count = 0, time_quantum_ms = 100\<rparr>"

text \<open>
  Well-formed index-addressed rotations: one time per client, and the cursor on a client
  when there is one.
\<close>

definition ring_ok :: "(int \<times> string) list \<times> int list \<times> nat \<Rightarrow> bool" where
  "ring_ok r =
     (case r of (cs, st, cur) \<Rightarrow>
        length st = length cs \<and> (cs = [] \<longrightarrow> cur = 0) \<and> (cs \<noteq> [] \<longrightarrow> cur < length cs))"

subsection \<open>thread_pool.h, thread_pool.cpp: ThreadPool\<close>

text \<open>
  A task is a value of an arbitrary type \<open>'t\<close>; an empty \<^verbatim>\<open>std::function\<close> is \<open>None\<close>.
  Each worker thread is at one of four places of \<^verbatim>\<open>worker_thread\<close>: at the top of the
  loop, before or inside \<^verbatim>\<open>condition.wait\<close> (\<open>Waiting\<close>); past the critical section with
  a task in its local variable (\<open>Holding\<close>); inside \<^verbatim>\<open>task()\<close> (\<open>Running\<close>); returned
  (\<open>Exited\<close>). \<open>tasks\<close> is the queue, front first. \<open>finished\<close> is not a field of the
  class: it records, in order, the tasks whose call has returned or whose exception has
  been caught by the worker.
\<close>

datatype 't worker = Waiting | Holding 't | Running 't | Exited

record 't ThreadPool =
  workers :: "'t worker list"
  tasks :: "'t list"
  stop :: bool
  active_count :: int
  pool_size :: int
  finished :: "'t list"

text \<open>
  The constructor throws when \<^verbatim>\<open>size <= 0\<close> and starts \<^verbatim>\<open>pool_size\<close> workers otherwise
  (its handler for a failed thread creation is not modelled).
\<close>

definition ThreadPool_new :: "int \<Rightarrow> error + 't ThreadPool" where
  "ThreadPool_new sz =
     (if sz \<le> 0 then Inl (InvalidArgument ''Thread pool size must be positive'')
      else Inr \<lparr>workers = replicate (nat sz) Waiting, tasks = [], stop = False,
                active_count = 0, pool_size = sz, finished = []\<rparr>)"

definition enqueue :: "'t ThreadPool \<Rightarrow> 't option \<Rightarrow> error + 't ThreadPool" where
  "enqueue p task =
     (case task of
        None \<Rightarrow> Inl (InvalidArgument ''Cannot enqueue null task'')
      | Some t \<Rightarrow>
          if stop p then Inl (RuntimeError ''Cannot enqueue task on stopped thread pool'')
          else Inr (p\<lparr>tasks := tasks p @ [t]\<rparr>))"

text \<open>The critical section of the destructor: \<^verbatim>\<open>stop = true\<close>.\<close>

definition shutdown :: "'t ThreadPool \<Rightarrow> 't ThreadPool" where
  "shutdown p = p\<lparr>stop := True\<rparr>"

text \<open>
  The critical section of \<^verbatim>\<open>worker_thread\<close>, run by worker \<open>i\<close> under \<^verbatim>\<open>queue_mutex\<close>.
  \<^verbatim>\<open>condition.wait(lock, pred)\<close> returns only when \<^verbatim>\<open>stop || !tasks.empty()\<close> holds;
  until then the worker is blocked (\<open>None\<close>). Then \<^verbatim>\<open>if (stop && tasks.empty()) return;\<close>
  and \<^verbatim>\<open>if (!tasks.empty()) { task = front; pop; }\<close>. With an empty local task the
  worker goes back to the top of the loop.
\<close>

definition worker_critical :: "'t ThreadPool \<Rightarrow> nat \<Rightarrow> 't ThreadPool option" where
  "worker_critical p i =
     (if \<not> (stop p \<or> tasks p \<noteq> []) then None
      else if stop p \<and> tasks p = [] then Some (p\<lparr>workers := (workers p)[i := Exited]\<rparr>)
      else (case tasks p of
              [] \<Rightarrow> Some p
            | t # q \<Rightarrow> Some (p\<lparr>workers := (workers p)[i := Holding t], tasks := q\<rparr>)))"

text \<open>
  \<^verbatim>\<open>active_count++\<close> and the entry into \<^verbatim>\<open>task()\<close>. \<^verbatim>\<open>active_count\<close> is a
  \<^verbatim>\<open>std::atomic<int>\<close> of 32 bits.
\<close>

definition worker_begin :: "'t ThreadPool \<Rightarrow> nat \<Rightarrow> 't \<Rightarrow> 't ThreadPool" where
  "worker_begin p i t =
     p\<lparr>workers := (workers p)[i := Running t], active_count := int32_wrap (active_count p + 1)\<rparr>"

text \<open>
  The return of \<^verbatim>\<open>task()\<close>, normal or by an exception that one of the two handlers
  catches, and \<^verbatim>\<open>active_count--\<close>.
\<close>

definition worker_end :: "'t ThreadPool \<Rightarrow> nat \<Rightarrow> 't \<Rightarrow> 't ThreadPool" where
  "worker_end p i t =
     p\<lparr>workers := (workers p)[i := Waiting], active_count := int32_wrap (active_count p - 1),
       finished := finished p @ [t]\<rparr>"

text \<open>
  One step of the pool: a successful \<^verbatim>\<open>enqueue\<close>, the destructor setting the stop flag,
  or one worker doing its next piece of \<^verbatim>\<open>worker_thread\<close>. The mutex makes each critical
  section one step; the counter updates are atomic.
\<close>

inductive pool_step :: "'t ThreadPool \<Rightarrow> 't ThreadPool \<Rightarrow> bool" where
  step_enqueue: "enqueue p task = Inr p' \<Longrightarrow> pool_step p p'"
| step_shutdown: "pool_step p (shutdown p)"
| step_critical:
    "i < length (workers p) \<Longrightarrow> workers p ! i = Waiting \<Longrightarrow> worker_critical p i = Some p' \<Longrightarrow>
     pool_step p p'"
| step_begin:
    "i < length (workers p) \<Longrightarrow> workers p ! i = Holding t \<Longrightarrow> pool_step p (worker_begin p i t)"
| step_end:
    "i < length (workers p) \<Longrightarrow> workers p ! i = Running t \<Longrightarrow> pool_step p (worker_end p i t)"

text \<open>The tasks that workers have taken from the queue and not yet finished.\<close>

fun held :: "'t worker \<Rightarrow> 't multiset" where
  "held Waiting = {#}"
| "held (Holding t) = {#t#}"
| "held (Running t) = {#t#}"
| "held Exited = {#}"

definition in_flight :: "'t worker list \<Rightarrow> 't multiset" where
  "in_flight ws = sum_list (map held ws)"

text \<open>All tasks the pool knows of: queued, taken, and finished.\<close>

definition all_tasks :: "'t ThreadPool \<Rightarrow> 't multiset" where
  "all_tasks p = mset (tasks p) + in_flight (workers p) + mset (finished p)"

text \<open>
  The invariant of the pool: the number of workers is positive, and once a worker has
  exited the stop flag is set and the queue is empty.
\<close>

definition pool_inv :: "'t ThreadPool \<Rightarrow> bool" where
  "pool_inv p \<longleftrightarrow>
     workers p \<noteq> [] \<and> (Exited \<in> set (workers p) \<longrightarrow> stop p \<and> tasks p = [])"

text \<open>
  The work that is left once the stop flag is set: three steps of some worker for each
  queued task (take it, enter it, leave it), the steps a worker still has to do for the
  task it holds, and one step for the exit of each worker.
\<close>

fun phase_work :: "'t worker \<Rightarrow> nat" where
  "phase_work Waiting = 1"
| "phase_work (Holding t) = 3"
| "phase_work (Running t) = 2"
| "phase_work Exited = 0"

definition pool_work :: "'t ThreadPool \<Rightarrow> nat" where
  "pool_work p = 3 * length (tasks p) + sum_list (map phase_work (workers p))"

text \<open>
  A pool of one worker with one queued task (the task is the number 7), and the same pool
  after shutdown, when the worker has run the task and exited.
\<close>

definition pool_queued :: "nat ThreadPool" where
  "pool_queued =
     \<lparr>workers = [Waiting], tasks = [7], stop = False, active_count = 0, pool_size = 1,
      finished = []\<rparr>"

definition pool_drained :: "nat ThreadPool" where
  "pool_drained =
     \<lparr>workers = [Exited], tasks = [], stop = True, active_count = 0, pool_size = 1,
      finished = [7]\<rparr>"

subsection \<open>common.h: Message, ClientInfo, PerformanceMetrics\<close>

text \<open>
  The character arrays \<^verbatim>\<open>sender[64]\<close> and \<^verbatim>\<open>payload[BUFFER_SIZE]\<close> are modelled by the
  C string they hold (the bytes before the first NUL), which is what
  \<^verbatim>\<open>std::string(msg.sender)\<close> and the \<^verbatim>\<open>const std::string&\<close> parameters of
  \<^verbatim>\<open>MessageCache::insert\<close> read. Field names that occur in two structs carry a prefix:
  \<open>msg_\<close> for \<^verbatim>\<open>Message\<close>, \<open>info_\<close> for \<^verbatim>\<open>ClientInfo\<close>.
\<close>

record Message =
  msg_type :: "8 word"
  msg_user_id :: "32 word"
  payload_size :: "32 word"
  msg_sender :: string
  payload :: string
  msg_timestamp :: int

definition MSG_TEXT :: "8 word" where "MSG_TEXT = 0x01"
definition MSG_JOIN :: "8 word" where "MSG_JOIN = 0x02"
definition MSG_LEAVE :: "8 word" where "MSG_LEAVE = 0x03"
definition MSG_AUDIO :: "8 word" where "MSG_AUDIO = 0x04"
definition MSG_VIDEO :: "8 word" where "MSG_VIDEO = 0x05"
definition MSG_STATUS :: "8 word" where "MSG_STATUS = 0x06"
definition MSG_CACHE_TEST :: "8 word" where "MSG_CACHE_TEST = 0x07"

definition BUFFER_SIZE :: nat where "BUFFER_SIZE = 4096"

text \<open>
  \<^verbatim>\<open>sizeof(Message)\<close> on an LP64 target: \<^verbatim>\<open>type\<close> at offset 0, \<^verbatim>\<open>padding1\<close> at 1,
  \<^verbatim>\<open>user_id\<close> at 4, \<^verbatim>\<open>payload_size\<close> at 8, \<^verbatim>\<open>sender\<close> at 12, \<^verbatim>\<open>payload\<close> at 76, four
  bytes of padding at 4172, the 8-byte \<^verbatim>\<open>timestamp\<close> at 4176.
\<close>

definition sizeof_Message :: int where "sizeof_Message = 4184"

text \<open>
  \<^verbatim>\<open>memset(&m, 0, sizeof(m))\<close>, \<^verbatim>\<open>set_sender\<close> (\<^verbatim>\<open>strncpy\<close> of at most 63 bytes) and
  \<^verbatim>\<open>set_payload\<close> (at most \<^verbatim>\<open>BUFFER_SIZE - 1\<close> bytes, and \<^verbatim>\<open>payload_size = strlen\<close>).
\<close>

definition Message_zero :: Message where
  "Message_zero =
     \<lparr>msg_type = 0, msg_user_id = 0, payload_size = 0, msg_sender = [], payload = [],
      msg_timestamp = 0\<rparr>"

definition set_sender :: "Message \<Rightarrow> string \<Rightarrow> Message" where
  "set_sender m name = m\<lparr>msg_sender := take 63 name\<rparr>"

definition set_payload :: "Message \<Rightarrow> string \<Rightarrow> Message" where
  "set_payload m cont =
     m\<lparr>payload := take (BUFFER_SIZE - 1) cont,
       payload_size := of_nat (length (take (BUFFER_SIZE - 1) cont))\<rparr>"

record ClientInfo =
  info_socket_fd :: int
  info_user_id :: string
  connect_time :: int
  last_active :: int
  active :: bool

record PerformanceMetrics =
  messages_sent :: "64 word"
  messages_received :: "64 word"
  cache_hits :: "64 word"
  cache_misses :: "64 word"
  page_faults_minor :: "64 word"
  page_faults_major :: "64 word"
  active_threads :: int
  active_clients :: int

subsection \<open>server.cpp: the shared state\<close>

text \<open>
  The globals that \<^verbatim>\<open>broadcast_message\<close> and the message loop of \<^verbatim>\<open>handle_client\<close> read
  and write. \<open>clients\<close> is the \<^verbatim>\<open>std::map<int, ClientInfo>\<close> as the list of its pairs in
  iteration order, with pairwise distinct keys. \<open>wire\<close> is not a variable of the program:
  it lists the calls of \<^verbatim>\<open>send\<close> made so far, each with the descriptor, the message and
  the value \<^verbatim>\<open>send\<close> returned. Console and file logging are not modelled.
\<close>

record Server =
  clients :: "(int \<times> ClientInfo) list"
  message_cache :: MessageCache
  metrics :: PerformanceMetrics
  wire :: "(int \<times> Message \<times> int) list"

subsection \<open>server.cpp: broadcast_message\<close>

text \<open>
  The first pass, under \<^verbatim>\<open>clients_mutex\<close>: the loop over \<^verbatim>\<open>clients\<close>. \<open>net fd\<close> is the
  value that \<^verbatim>\<open>send(fd, ...)\<close> returns. The loop carries \<^verbatim>\<open>failed_sockets\<close>, the metrics
  and the list of sends; it does not write to \<^verbatim>\<open>clients\<close>.
\<close>

fun send_loop ::
  "(int \<Rightarrow> int) \<Rightarrow> Message \<Rightarrow> int \<Rightarrow> (int \<times> ClientInfo) list \<Rightarrow>
   int list \<times> PerformanceMetrics \<times> (int \<times> Message \<times> int) list \<Rightarrow>
   int list \<times> PerformanceMetrics \<times> (int \<times> Message \<times> int) list" where
  "send_loop net msg sender_socket [] acc = acc"
| "send_loop net msg sender_socket ((fd, client_info) # rest) (failed_sockets, m, w) =
     (if fd \<noteq> sender_socket \<and> active client_info then
        (let sent = net fd in
         if sent > 0
         then send_loop net msg sender_socket rest
                (failed_sockets, m\<lparr>messages_sent := messages_sent m + 1\<rparr>, w @ [(fd, msg, sent)])
         else send_loop net msg sender_socket rest
                (failed_sockets @ [fd], m, w @ [(fd, msg, sent)]))
      else send_loop net msg sender_socket rest (failed_sockets, m, w))"

text \<open>
  The second pass, one lock per failed descriptor: \<^verbatim>\<open>clients.find(fd)\<close> and, when found,
  \<^verbatim>\<open>it->second.active = false\<close>. Nothing is erased.
\<close>

fun set_inactive :: "int \<Rightarrow> (int \<times> ClientInfo) list \<Rightarrow> (int \<times> ClientInfo) list" where
  "set_inactive fd [] = []"
| "set_inactive fd ((k, ci) # rest) =
     (if k = fd then (k, ci\<lparr>active := False\<rparr>) # rest else (k, ci) # set_inactive fd rest)"

definition cleanup_pass :: "int list \<Rightarrow> (int \<times> ClientInfo) list \<Rightarrow> (int \<times> ClientInfo) list" where
  "cleanup_pass failed_sockets cl = foldl (\<lambda>c fd. set_inactive fd c) cl failed_sockets"

text \<open>
  The state after the first pass together with \<^verbatim>\<open>failed_sockets\<close>, and the whole function.
  \<open>now\<close> is the value of \<^verbatim>\<open>time(nullptr)\<close> inside \<^verbatim>\<open>MessageCache::insert\<close>; the bool that
  \<^verbatim>\<open>insert\<close> returns is dropped, as in the source.
\<close>

definition broadcast_send_pass :: "(int \<Rightarrow> int) \<Rightarrow> Server \<Rightarrow> Message \<Rightarrow> int \<Rightarrow> int list \<times> Server" where
  "broadcast_send_pass net srv msg sender_socket =
     (case send_loop net msg sender_socket (clients srv) ([], metrics srv, wire srv) of
        (failed_sockets, m, w) \<Rightarrow> (failed_sockets, srv\<lparr>metrics := m, wire := w\<rparr>))"

definition broadcast_message :: "(int \<Rightarrow> int) \<Rightarrow> int \<Rightarrow> Server \<Rightarrow> Message \<Rightarrow> int \<Rightarrow> Server" where
  "broadcast_message net now srv msg sender_socket =
     (case broadcast_send_pass net srv msg sender_socket of
        (failed_sockets, srv1) \<Rightarrow>
          (let srv2 = srv1\<lparr>clients := cleanup_pass failed_sockets (clients srv1)\<rparr> in
           srv2\<lparr>message_cache :=
                  snd (insert_cache (message_cache srv2) (msg_sender msg) (payload msg)
                         (msg_timestamp msg) now)\<rparr>))"

text \<open>The connections a broadcast sends to: active, and not the sender.\<close>

definition peers :: "Server \<Rightarrow> int \<Rightarrow> (int \<times> ClientInfo) list" where
  "peers srv sender_socket =
     filter (\<lambda>(fd, client_info). fd \<noteq> sender_socket \<and> active client_info) (clients srv)"

subsection \<open>server.cpp: handle_client\<close>

text \<open>
  Of \<^verbatim>\<open>handle_client\<close>, the join notification, the message loop and the leave notification
  are embedded. \<open>t\<close> is the value of \<^verbatim>\<open>time(nullptr)\<close> stored in the message, \<open>now\<close> the
  one read by the cache. \<^verbatim>\<open>snprintf\<close> writes at most \<^verbatim>\<open>sizeof(payload) - 1\<close> characters.
\<close>

definition join_msg :: "string \<Rightarrow> int \<Rightarrow> Message" where
  "join_msg uid t =
     (let m0 = Message_zero\<lparr>msg_type := MSG_JOIN, msg_timestamp := t\<rparr>;
          m1 = set_sender m0 uid;
          m2 = m1\<lparr>payload := take (BUFFER_SIZE - 1) (uid @ '' has joined the chat'')\<rparr>
      in m2\<lparr>payload_size := of_nat (length (payload m2))\<rparr>)"

definition notify_join :: "(int \<Rightarrow> int) \<Rightarrow> int \<Rightarrow> int \<Rightarrow> Server \<Rightarrow> string \<Rightarrow> int \<Rightarrow> Server" where
  "notify_join net now t srv uid client_socket =
     broadcast_message net now srv (join_msg uid t) client_socket"

definition leave_msg :: "string \<Rightarrow> int \<Rightarrow> Message" where
  "leave_msg uid t =
     (let m0 = Message_zero\<lparr>msg_type := MSG_LEAVE, msg_timestamp := t\<rparr>;
          m1 = set_sender m0 uid;
          m2 = m1\<lparr>payload := take (BUFFER_SIZE - 1) (uid @ '' has left the chat'')\<rparr>
      in m2\<lparr>payload_size := of_nat (length (payload m2))\<rparr>)"

definition notify_leave :: "(int \<Rightarrow> int) \<Rightarrow> int \<Rightarrow> int \<Rightarrow> Server \<Rightarrow> string \<Rightarrow> Server" where
  "notify_leave net now t srv uid =
     (if uid \<noteq> [] then broadcast_message net now srv (leave_msg uid t) (- 1) else srv)"

text \<open>
  What one iteration of the message loop reads from outside: the flag
  \<^verbatim>\<open>server_running\<close>, the value, \<^verbatim>\<open>errno\<close> and buffer of \<^verbatim>\<open>recv\<close>, the values of
  \<^verbatim>\<open>send\<close>, the clock (one reading for the iteration), the number of \<^verbatim>\<open>VmHWM\<close> and
  \<^verbatim>\<open>VmRSS\<close> lines that \<^verbatim>\<open>read_page_faults\<close> finds in \<^verbatim>\<open>/proc/self/status\<close> (0 when the
  file cannot be opened or the build is not for Linux) and the statistics text that the
  \<^verbatim>\<open>stringstream\<close> formats (it prints a floating-point rate, which is not modelled).
  The timestamp of a received message is a \<^verbatim>\<open>time_t\<close>, a value of 64 bits.
\<close>

record loop_env =
  server_running :: bool
  recv_bytes :: int
  recv_errno :: int
  recv_msg :: Message
  env_net :: "int \<Rightarrow> int"
  env_clock :: int
  env_vm_lines :: nat
  env_stats_text :: string

definition EAGAIN :: int where "EAGAIN = 11"
definition EWOULDBLOCK :: int where "EWOULDBLOCK = 11"

text \<open>\<^verbatim>\<open>clients.find(client_socket)\<close> and, when found, \<^verbatim>\<open>last_active = time(nullptr)\<close>.\<close>

fun touch_client :: "int \<Rightarrow> int \<Rightarrow> (int \<times> ClientInfo) list \<Rightarrow> (int \<times> ClientInfo) list" where
  "touch_client fd t [] = []"
| "touch_client fd t ((k, ci) # rest) =
     (if k = fd then (k, ci\<lparr>last_active := t\<rparr>) # rest else (k, ci) # touch_client fd t rest)"

text \<open>
  The case \<^verbatim>\<open>MSG_TEXT\<close>: both strings are cut to fit with their terminator, one lookup
  of the fingerprint five seconds back, the broadcast with the timestamp replaced by the
  clock, and for \<^verbatim>\<open>i = 1, 2, 3\<close> a lookup that is followed by \<^verbatim>\<open>update_access\<close> when it
  hits. The subtractions are done on \<^verbatim>\<open>time_t\<close> and wrap at 64 bits.
\<close>

definition lookup_and_touch :: "string \<Rightarrow> int \<Rightarrow> int \<Rightarrow> MessageCache \<Rightarrow> int \<Rightarrow> MessageCache" where
  "lookup_and_touch uid ts now c i =
     (let prev_msg_id = uid @ ''_'' @ to_string (int64_wrap (ts - i)) in
      if fst (lookup c prev_msg_id)
      then update_access (snd (snd (lookup c prev_msg_id))) prev_msg_id now
      else snd (snd (lookup c prev_msg_id)))"

definition process_text :: "loop_env \<Rightarrow> Server \<Rightarrow> string \<Rightarrow> int \<Rightarrow> Message \<Rightarrow> Server" where
  "process_text e srv uid client_socket msg0 =
     (let msg1 = msg0\<lparr>msg_sender := take 63 (msg_sender msg0),
                      payload := take (BUFFER_SIZE - 1) (payload msg0)\<rparr>;
          recent_msg_id = msg_sender msg1 @ ''_''
                            @ to_string (int64_wrap (msg_timestamp msg1 - 5));
          srv1 = srv\<lparr>message_cache := snd (snd (lookup (message_cache srv) recent_msg_id))\<rparr>;
          msg2 = msg1\<lparr>msg_timestamp := env_clock e\<rparr>;
          srv2 = broadcast_message (env_net e) (env_clock e) srv1 msg2 client_socket
      in srv2\<lparr>message_cache :=
                foldl (lookup_and_touch uid (msg_timestamp msg2) (env_clock e))
                  (message_cache srv2) [1, 2, 3]\<rparr>)"

text \<open>
  \<^verbatim>\<open>update_metrics\<close> holds \<^verbatim>\<open>metrics_mutex\<close> for its whole body and calls
  \<^verbatim>\<open>read_page_faults\<close> at the end, which locks \<^verbatim>\<open>metrics_mutex\<close> once more for every
  \<^verbatim>\<open>VmHWM\<close> or \<^verbatim>\<open>VmRSS\<close> line it reads. A \<^verbatim>\<open>std::mutex\<close> is not recursive: with one such
  line the thread waits for itself and the call never returns (\<open>None\<close>). With no such
  line the call returns, the counters of active clients, hits and misses updated.
\<close>

definition update_metrics :: "nat \<Rightarrow> Server \<Rightarrow> Server option" where
  "update_metrics vm_lines srv =
     (if vm_lines > 0 then None
      else Some (srv\<lparr>metrics := (metrics srv)
                  \<lparr>active_clients := int (length (clients srv)),
                   cache_hits := hits (message_cache srv),
                   cache_misses := misses (message_cache srv)\<rparr>\<rparr>))"

text \<open>
  The case \<^verbatim>\<open>MSG_STATUS\<close>: \<^verbatim>\<open>update_metrics\<close> and, when it returns, the reply to the
  requester alone.
\<close>

definition process_status :: "loop_env \<Rightarrow> Server \<Rightarrow> int \<Rightarrow> Server option" where
  "process_status e srv client_socket =
     (case update_metrics (env_vm_lines e) srv of
        None \<Rightarrow> None
      | Some srv1 \<Rightarrow>
          (let stats_msg = set_payload
                             (set_sender (Message_zero\<lparr>msg_type := MSG_TEXT,
                                                        msg_timestamp := env_clock e\<rparr>) ''SERVER'')
                             (env_stats_text e)
           in Some (srv1\<lparr>wire := wire srv1
                                 @ [(client_socket, stats_msg, env_net e client_socket)]\<rparr>)))"

text \<open>
  The body of \<^verbatim>\<open>while (server_running.load())\<close>: the result says whether the loop goes on
  (\<^verbatim>\<open>continue\<close>, or the end of the body) or is left by \<^verbatim>\<open>break\<close>; it is \<open>None\<close> when
  the body does not return.
\<close>

datatype loop_ctl = Continue | Break

definition loop_iteration ::
  "loop_env \<Rightarrow> Server \<Rightarrow> string \<Rightarrow> int \<Rightarrow> (loop_ctl \<times> Server) option" where
  "loop_iteration e srv uid client_socket =
     (if recv_bytes e < 0 then
        (if recv_errno e = EWOULDBLOCK \<or> recv_errno e = EAGAIN then Some (Continue, srv)
         else Some (Break, srv))
      else if recv_bytes e = 0 \<or> recv_bytes e \<noteq> sizeof_Message then Some (Break, srv)
      else
        (let srv1 = srv\<lparr>metrics := (metrics srv)
                      \<lparr>messages_received := messages_received (metrics srv) + 1\<rparr>\<rparr>;
             srv2 = srv1\<lparr>clients := touch_client client_socket (env_clock e) (clients srv1)\<rparr>;
             msg = recv_msg e
         in if msg_type msg = MSG_TEXT
            then Some (Continue, process_text e srv2 uid client_socket msg)
            else if msg_type msg = MSG_STATUS
            then (case process_status e srv2 client_socket of
                    None \<Rightarrow> None
                  | Some srv3 \<Rightarrow> Some (Continue, srv3))
            else Some (Continue, srv2)))"

text \<open>
  The loop over the successive iterations. The list gives what each iteration reads; when
  it is used up the loop is taken to stop as on \<^verbatim>\<open>server_running == false\<close>. The result is
  the server state when the loop is left, and \<open>None\<close> when an iteration does not return.
\<close>

fun message_loop :: "Server \<Rightarrow> string \<Rightarrow> int \<Rightarrow> loop_env list \<Rightarrow> Server option" where
  "message_loop srv uid client_socket [] = Some srv"
| "message_loop srv uid client_socket (e # es) =
     (if \<not> server_running e then Some srv
      else (case loop_iteration e srv uid client_socket of
              None \<Rightarrow> None
            | Some (Continue, srv') \<Rightarrow> message_loop srv' uid client_socket es
            | Some (Break, srv') \<Rightarrow> Some srv'))"

text \<open>
  A server with two registered, active connections (descriptors 4 and 5), an empty cache of
  capacity \<^verbatim>\<open>CACHE_SIZE = 10\<close> and zero counters; a network on which every \<^verbatim>\<open>send\<close> fails;
  a text message from the first client; and two loop inputs: a short frame of 10 bytes and
  a frame of full size with kind \<^verbatim>\<open>MSG_CACHE_TEST\<close>, which the \<^verbatim>\<open>switch\<close> sends to
  \<^verbatim>\<open>default\<close>.
\<close>

definition server_two :: Server where
  "server_two =
     \<lparr>clients = [(4, \<lparr>info_socket_fd = 4, info_user_id = ''alice'', connect_time = 90,
                       last_active = 90, active = True\<rparr>),
                 (5, \<lparr>info_socket_fd = 5, info_user_id = ''bob'', connect_time = 95,
                       last_active = 95, active = True\<rparr>)],
      message_cache = MessageCache_init 10,
      metrics = \<lparr>messages_sent = 0, messages_received = 0, cache_hits = 0, cache_misses = 0,
                 page_faults_minor = 0, page_faults_major = 0, active_threads = 0,
                 active_clients = 2\<rparr>,
      wire = []\<rparr>"

definition net_down :: "int \<Rightarrow> int" where
  "net_down fd = - 1"

definition hello_msg :: Message where
  "hello_msg =
     \<lparr>msg_type = MSG_TEXT, msg_user_id = 0, payload_size = 2, msg_sender = ''alice'',
      payload = ''hi'', msg_timestamp = 100\<rparr>"

definition short_frame :: loop_env where
  "short_frame =
     \<lparr>server_running = True, recv_bytes = 10, recv_errno = 0, recv_msg = Message_zero,
      env_net = net_down, env_clock = 100, env_vm_lines = 0, env_stats_text = []\<rparr>"

definition full_frame :: loop_env where
  "full_frame =
     \<lparr>server_running = True, recv_bytes = sizeof_Message, recv_errno = 0,
      recv_msg = Message_zero\<lparr>msg_type := MSG_CACHE_TEST\<rparr>,
      env_net = net_down, env_clock = 101, env_vm_lines = 0, env_stats_text = []\<rparr>"

text \<open>
  A server with three registered, active connections (descriptors 4, 5 and 6) and a
  network on which the \<^verbatim>\<open>send\<close> to descriptor 5 fails and every other \<^verbatim>\<open>send\<close> writes the
  whole record.
\<close>

definition server_three :: Server where
  "server_three =
     \<lparr>clients = [(4, \<lparr>info_socket_fd = 4, info_user_id = ''alice'', connect_time = 90,
                       last_active = 90, active = True\<rparr>),
                 (5, \<lparr>info_socket_fd = 5, info_user_id = ''bob'', connect_time = 95,
                       last_active = 95, active = True\<rparr>),
                 (6, \<lparr>info_socket_fd = 6, info_user_id = ''carol'', connect_time = 97,
                       last_active = 97, active = True\<rparr>)],
      message_cache = MessageCache_init 10,
      metrics = \<lparr>messages_sent = 0, messages_received = 0, cache_hits = 0, cache_misses = 0,
                 page_faults_minor = 0, page_faults_major = 0, active_threads = 0,
                 active_clients = 3\<rparr>,
      wire = []\<rparr>"

definition net_one_down :: "int \<Rightarrow> int" where
  "net_one_down fd = (if fd = 5 then - 1 else sizeof_Message)"

section \<open>MessageCache: representation invariant and helper lemmas\<close>

lemma cache_inv_new: "MessageCache_new cap = Inr c \<Longrightarrow> cache_inv c"
  by (auto simp: MessageCache_new_def MessageCache_init_def cache_inv_def split: if_splits)

lemma find_lru_loop_first_min:
  assumes "\<forall>k. k < sz \<longrightarrow> valid (es ! k)" "lru < i" "i \<le> sz" "oldest = last_access (es ! lru)"
    "\<forall>k<i. last_access (es ! lru) \<le> last_access (es ! k)"
    "\<forall>k<lru. last_access (es ! lru) < last_access (es ! k)"
  shows "find_lru_loop es sz i lru oldest < sz \<and>
         (\<forall>k. k < sz \<longrightarrow> last_access (es ! find_lru_loop es sz i lru oldest) \<le> last_access (es ! k)) \<and>
         (\<forall>k<find_lru_loop es sz i lru oldest.
             last_access (es ! find_lru_loop es sz i lru oldest) < last_access (es ! k))"
  using assms
proof (induction es sz i lru oldest rule: find_lru_loop.induct)
  case (1 es sz i lru oldest)
  show ?case
  proof (cases "i < sz")
    case False
    then have r: "find_lru_loop es sz i lru oldest = lru"
      by (simp add: find_lru_loop.simps [of es sz i])
    from False "1.prems" have "i = sz" by simp
    with "1.prems" show ?thesis unfolding r by simp
  next
    case True
    note lt = True
    show ?thesis
    proof (cases "valid (es ! i) \<and> last_access (es ! i) < oldest")
      case True
      have a: "\<forall>k<Suc i. last_access (es ! i) \<le> last_access (es ! k)"
        using True "1.prems" by (auto simp: less_Suc_eq intro: order.trans less_imp_le)
      have b: "\<forall>k<i. last_access (es ! i) < last_access (es ! k)"
        using True "1.prems" by (auto intro: less_le_trans)
      have "find_lru_loop es sz i lru oldest = find_lru_loop es sz (Suc i) i (last_access (es ! i))"
        using lt True by (simp add: find_lru_loop.simps [of es sz i])
      moreover note "1.IH"(1) [OF lt True "1.prems"(1) _ _ refl a b]
      ultimately show ?thesis using lt by simp
    next
      case False
      have a: "\<forall>k<Suc i. last_access (es ! lru) \<le> last_access (es ! k)"
        using False lt "1.prems" by (auto simp: less_Suc_eq)
      have "find_lru_loop es sz i lru oldest = find_lru_loop es sz (Suc i) lru oldest"
        using lt False by (subst find_lru_loop.simps) auto
      moreover note "1.IH"(2) [OF lt False "1.prems"(1) _ _ "1.prems"(4) a "1.prems"(6)]
      ultimately show ?thesis using lt "1.prems" by simp
    qed
  qed
qed

lemma find_lru_index_is_lru:
  assumes "cache_inv c" "0 < cache_size c"
  shows "is_lru c (find_lru_index c)"
proof -
  have v: "\<forall>k. k < cache_size c \<longrightarrow> valid (cache c ! k)"
    using assms(1) by (simp add: cache_inv_def)
  have "find_lru_loop (cache c) (cache_size c) 1 0 (last_access (cache c ! 0)) < cache_size c \<and>
        (\<forall>k. k < cache_size c \<longrightarrow>
           last_access (cache c ! find_lru_loop (cache c) (cache_size c) 1 0 (last_access (cache c ! 0)))
             \<le> last_access (cache c ! k)) \<and>
        (\<forall>k<find_lru_loop (cache c) (cache_size c) 1 0 (last_access (cache c ! 0)).
           last_access (cache c ! find_lru_loop (cache c) (cache_size c) 1 0 (last_access (cache c ! 0)))
             < last_access (cache c ! k))"
    by (rule find_lru_loop_first_min [OF v]) (use assms(2) in auto)
  then show ?thesis
    using assms(2) v by (simp add: is_lru_def find_lru_index_def)
qed

lemma is_lru_unique: "is_lru c j \<Longrightarrow> is_lru c j' \<Longrightarrow> j = j'"
  unfolding is_lru_def by (metis linorder_neqE_nat not_le)

lemma insert_cache_dup:
  "index_map c (generate_message_id sndr ts) \<noteq> None \<Longrightarrow>
   insert_cache c sndr cont ts now = (False, c)"
  by (simp add: insert_cache_def)

lemma insert_cache_free:
  "index_map c (generate_message_id sndr ts) = None \<Longrightarrow> cache_size c < capacity c \<Longrightarrow>
   insert_cache c sndr cont ts now =
     (True, c\<lparr>cache := (cache c)[cache_size c :=
                  new_entry (generate_message_id sndr ts) cont sndr ts now],
              cache_size := cache_size c + 1,
              index_map := (index_map c)(generate_message_id sndr ts \<mapsto> cache_size c)\<rparr>)"
  by (simp add: insert_cache_def Let_def)

lemma insert_cache_full:
  "index_map c (generate_message_id sndr ts) = None \<Longrightarrow> \<not> cache_size c < capacity c \<Longrightarrow>
   valid (cache c ! find_lru_index c) \<Longrightarrow>
   insert_cache c sndr cont ts now =
     (True, c\<lparr>cache := (cache c)[find_lru_index c :=
                  new_entry (generate_message_id sndr ts) cont sndr ts now],
              index_map := ((index_map c)(message_id (cache c ! find_lru_index c) := None))
                             (generate_message_id sndr ts \<mapsto> find_lru_index c)\<rparr>)"
  by (simp add: insert_cache_def Let_def)

lemma cache_inv_insert_free:
  assumes inv: "cache_inv c" and new: "index_map c k = None" and lt: "cache_size c < capacity c"
    and e: "valid e" "message_id e = k"
  shows "cache_inv (c\<lparr>cache := (cache c)[cache_size c := e], cache_size := cache_size c + 1,
                      index_map := (index_map c)(k \<mapsto> cache_size c)\<rparr>)"
proof -
  let ?n = "cache_size c"
  from inv have len: "length (cache c) = capacity c" and pos: "0 < capacity c"
    and fwd: "\<And>i. i < ?n \<Longrightarrow> valid (cache c ! i) \<and> index_map c (message_id (cache c ! i)) = Some i"
    and bwd: "\<And>k i. index_map c k = Some i \<Longrightarrow>
                i < ?n \<and> valid (cache c ! i) \<and> message_id (cache c ! i) = k"
    by (simp_all add: cache_inv_def)
  have a: "valid ((cache c)[?n := e] ! i) \<and>
           ((index_map c)(k \<mapsto> ?n)) (message_id ((cache c)[?n := e] ! i)) = Some i"
    if "i < Suc ?n" for i
  proof (cases "i = ?n")
    case True
    then show ?thesis using e lt len by simp
  next
    case False
    with that have "i < ?n" by simp
    from fwd [OF this] new have "message_id (cache c ! i) \<noteq> k" by auto
    with fwd [OF \<open>i < ?n\<close>] False show ?thesis by simp
  qed
  have b: "i < Suc ?n \<and> valid ((cache c)[?n := e] ! i) \<and> message_id ((cache c)[?n := e] ! i) = k'"
    if "((index_map c)(k \<mapsto> ?n)) k' = Some i" for k' i
  proof (cases "k' = k")
    case True
    with that have "i = ?n" by simp
    then show ?thesis using e True lt len by simp
  next
    case False
    with that have "index_map c k' = Some i" by simp
    from bwd [OF this] show ?thesis by auto
  qed
  show ?thesis
    unfolding cache_inv_def using pos len lt a b by simp
qed

lemma cache_inv_insert_full:
  assumes inv: "cache_inv c" and new: "index_map c k = None" and j: "j < cache_size c"
    and e: "valid e" "message_id e = k"
  shows "cache_inv (c\<lparr>cache := (cache c)[j := e],
                      index_map := ((index_map c)(message_id (cache c ! j) := None))(k \<mapsto> j)\<rparr>)"
proof -
  let ?n = "cache_size c"
  let ?old = "message_id (cache c ! j)"
  from inv have len: "length (cache c) = capacity c" and pos: "0 < capacity c"
    and le: "?n \<le> capacity c"
    and fwd: "\<And>i. i < ?n \<Longrightarrow> valid (cache c ! i) \<and> index_map c (message_id (cache c ! i)) = Some i"
    and bwd: "\<And>k i. index_map c k = Some i \<Longrightarrow>
                i < ?n \<and> valid (cache c ! i) \<and> message_id (cache c ! i) = k"
    by (simp_all add: cache_inv_def)
  have jl: "j < length (cache c)" using j le len by simp
  have a: "valid ((cache c)[j := e] ! i) \<and>
           ((index_map c)(?old := None, k \<mapsto> j)) (message_id ((cache c)[j := e] ! i)) = Some i"
    if "i < ?n" for i
  proof (cases "i = j")
    case True
    then show ?thesis using e jl by simp
  next
    case False
    from fwd [OF that] new have nk: "message_id (cache c ! i) \<noteq> k" by auto
    from fwd [OF that] fwd [OF j] False have "message_id (cache c ! i) \<noteq> ?old" by auto
    with nk fwd [OF that] False show ?thesis by simp
  qed
  have b: "i < ?n \<and> valid ((cache c)[j := e] ! i) \<and> message_id ((cache c)[j := e] ! i) = k'"
    if "((index_map c)(?old := None, k \<mapsto> j)) k' = Some i" for k' i
  proof (cases "k' = k")
    case True
    with that have "i = j" by simp
    then show ?thesis using e True j jl by simp
  next
    case False
    with that have ne: "k' \<noteq> ?old" and "index_map c k' = Some i"
      by (auto split: if_splits)
    from bwd [OF this(2)] ne have "i \<noteq> j" by auto
    with bwd [OF \<open>index_map c k' = Some i\<close>] show ?thesis by simp
  qed
  show ?thesis
    unfolding cache_inv_def using pos len le a b by simp
qed

lemma cache_inv_insert: "cache_inv c \<Longrightarrow> cache_inv (snd (insert_cache c sndr cont ts now))"
proof -
  assume inv: "cache_inv c"
  let ?k = "generate_message_id sndr ts"
  show ?thesis
  proof (cases "index_map c ?k = None")
    case False
    then show ?thesis using inv by (simp add: insert_cache_dup)
  next
    case True
    note new = True
    show ?thesis
    proof (cases "cache_size c < capacity c")
      case True
      show ?thesis
        unfolding insert_cache_free [OF new True] snd_conv
        by (rule cache_inv_insert_free [OF inv new True]) (simp_all add: new_entry_def)
    next
      case False
      with inv have pos: "0 < cache_size c" by (simp add: cache_inv_def)
      have lru: "is_lru c (find_lru_index c)" by (rule find_lru_index_is_lru [OF inv pos])
      then have v: "valid (cache c ! find_lru_index c)" and lt: "find_lru_index c < cache_size c"
        by (simp_all add: is_lru_def)
      show ?thesis
        unfolding insert_cache_full [OF new False v] snd_conv
        by (rule cache_inv_insert_full [OF inv new lt]) (simp_all add: new_entry_def)
    qed
  qed
qed

lemma cache_inv_lookup: "cache_inv c \<Longrightarrow> cache_inv (snd (snd (lookup c mid)))"
  by (auto simp: lookup_def cache_inv_def split: option.splits)

lemma cache_inv_touch:
  assumes inv: "cache_inv c" and j: "j < cache_size c"
  shows "cache_inv (c\<lparr>cache := (cache c)[j := (cache c ! j)\<lparr>last_access := t, access_count := n\<rparr>]\<rparr>)"
proof -
  let ?es = "(cache c)[j := (cache c ! j)\<lparr>last_access := t, access_count := n\<rparr>]"
  from inv j have jl: "j < length (cache c)" by (simp add: cache_inv_def)
  have "valid (?es ! i) = valid (cache c ! i) \<and> message_id (?es ! i) = message_id (cache c ! i)" for i
    using jl by (cases "i = j") simp_all
  then show ?thesis
    using inv unfolding cache_inv_def by simp
qed

lemma cache_inv_update_access: "cache_inv c \<Longrightarrow> cache_inv (update_access c mid now)"
  unfolding update_access_def
  by (simp add: cache_inv_touch split: option.splits)

lemma cache_inv_clear: "cache_inv c \<Longrightarrow> cache_inv (clear c)"
  by (simp add: clear_def cache_inv_def)

lemma cache_inv_apply_op: "cache_inv c \<Longrightarrow> cache_inv (apply_op c x)"
  by (cases x) (simp_all add: cache_inv_insert cache_inv_lookup cache_inv_update_access cache_inv_clear)

lemma cache_inv_run_ops: "cache_inv c \<Longrightarrow> cache_inv (run_ops c ops)"
  unfolding run_ops_def by (induction ops arbitrary: c) (simp_all add: cache_inv_apply_op)

lemma capacity_apply_op: "capacity (apply_op c x) = capacity c"
  by (cases x) (auto simp: insert_cache_def lookup_def update_access_def clear_def Let_def split: option.splits)

lemma capacity_run_ops: "capacity (run_ops c ops) = capacity c"
  unfolding run_ops_def by (induction ops arbitrary: c) (simp_all add: capacity_apply_op)

lemma cache_inv_reachable:
  "MessageCache_new cap = Inr c0 \<Longrightarrow> cache_inv (run_ops c0 ops)"
  by (simp add: cache_inv_new cache_inv_run_ops)

lemma cache_inv_fwd:
  "cache_inv c \<Longrightarrow> i < cache_size c \<Longrightarrow>
   valid (cache c ! i) \<and> index_map c (message_id (cache c ! i)) = Some i"
  by (simp add: cache_inv_def)

lemma cache_inv_bwd:
  "cache_inv c \<Longrightarrow> index_map c k = Some i \<Longrightarrow>
   i < cache_size c \<and> valid (cache c ! i) \<and> message_id (cache c ! i) = k"
  by (simp add: cache_inv_def)

lemma insert_cache_full_gen:
  "index_map c (generate_message_id sndr ts) = None \<Longrightarrow> \<not> cache_size c < capacity c \<Longrightarrow>
   insert_cache c sndr cont ts now =
     (True, c\<lparr>cache := (cache c)[find_lru_index c :=
                  new_entry (generate_message_id sndr ts) cont sndr ts now],
              index_map := ((if valid (cache c ! find_lru_index c)
                   then (index_map c)(message_id (cache c ! find_lru_index c) := None)
                   else index_map c))
                             (generate_message_id sndr ts \<mapsto> find_lru_index c)\<rparr>)"
  by (simp add: insert_cache_def Let_def)

lemma insert_cache_indexed:
  "index_map (snd (insert_cache c sndr cont ts now)) (generate_message_id sndr ts) \<noteq> None"
proof (cases "index_map c (generate_message_id sndr ts) = None")
  case False
  then show ?thesis by (simp add: insert_cache_dup)
next
  case True
  note new = True
  show ?thesis
  proof (cases "cache_size c < capacity c")
    case True
    show ?thesis unfolding insert_cache_free [OF new True] by simp
  next
    case False
    show ?thesis unfolding insert_cache_full_gen [OF new False] by simp
  qed
qed

lemma lookup_frame:
  "snd (snd (lookup c mid)) =
     (if fst (lookup c mid) then c\<lparr>hits := hits c + 1\<rparr> else c\<lparr>misses := misses c + 1\<rparr>)"
  by (simp add: lookup_def split: option.splits)

lemma update_access_live:
  assumes "cache_inv c" "i < cache_size c" "message_id (cache c ! i) = mid"
  shows "update_access c mid now =
     c\<lparr>cache := (cache c)[i := (cache c ! i)
          \<lparr>last_access := now,
           access_count := int32_wrap (access_count (cache c ! i) + 1)\<rparr>]\<rparr>"
proof -
  from cache_inv_fwd [OF assms(1,2)] assms(3)
  have "index_map c mid = Some i" "valid (cache c ! i)" by simp_all
  then show ?thesis using assms(2) by (simp add: update_access_def)
qed

lemma update_access_absent:
  assumes "cache_inv c" "\<forall>i < cache_size c. message_id (cache c ! i) \<noteq> mid"
  shows "update_access c mid now = c"
proof (cases "index_map c mid")
  case None
  then show ?thesis by (simp add: update_access_def)
next
  case (Some i)
  from cache_inv_bwd [OF assms(1) Some] assms(2) show ?thesis by auto
qed

lemma int32_wrap_range: "INT_MIN \<le> int32_wrap k \<and> int32_wrap k \<le> INT_MAX"
proof -
  have "- (2 ^ 31) \<le> signed_take_bit 31 k" "signed_take_bit 31 k < (2 ^ 31 :: int)"
    by (rule signed_take_bit_int_greater_eq_minus_exp, rule signed_take_bit_int_less_exp)
  then show ?thesis by (simp add: int32_wrap_def INT_MIN_def INT_MAX_def)
qed

lemma int32_wrap_increment:
  assumes "INT_MIN \<le> k" "k < INT_MAX"
  shows "int32_wrap (k + 1) = k + 1"
  unfolding int32_wrap_def
  by (rule signed_take_bit_int_eq_self) (use assms in \<open>simp_all add: INT_MIN_def INT_MAX_def\<close>)

lemma int32_wrap_overflow: "int32_wrap (INT_MAX + 1) = INT_MIN"
  by (simp add: int32_wrap_def INT_MAX_def INT_MIN_def signed_take_bit_eq_take_bit_minus)

lemma counts_in_range_update:
  assumes "counts_in_range c" "INT_MIN \<le> access_count e" "access_count e \<le> INT_MAX"
  shows "counts_in_range (c\<lparr>cache := (cache c)[j := e]\<rparr>)"
proof -
  have "set ((cache c)[j := e]) \<subseteq> insert e (set (cache c))"
    by (rule set_update_subset_insert)
  with assms show ?thesis unfolding counts_in_range_def by auto
qed

lemma counts_in_range_irrelevant:
  "counts_in_range (c\<lparr>cache_size := n\<rparr>) = counts_in_range c"
  "counts_in_range (c\<lparr>index_map := im\<rparr>) = counts_in_range c"
  "counts_in_range (c\<lparr>hits := h\<rparr>) = counts_in_range c"
  "counts_in_range (c\<lparr>misses := h\<rparr>) = counts_in_range c"
  by (simp_all add: counts_in_range_def)

lemma counts_in_range_insert:
  assumes "counts_in_range c"
  shows "counts_in_range (snd (insert_cache c sndr cont ts now))"
proof -
  let ?e = "new_entry (generate_message_id sndr ts) cont sndr ts now"
  have e: "INT_MIN \<le> access_count ?e" "access_count ?e \<le> INT_MAX"
    by (simp_all add: new_entry_def INT_MIN_def INT_MAX_def)
  have u: "counts_in_range (c\<lparr>cache := (cache c)[j := ?e]\<rparr>)" for j
    by (rule counts_in_range_update [OF assms e])
  show ?thesis
  proof (cases "index_map c (generate_message_id sndr ts) = None")
    case False
    then show ?thesis using assms by (simp add: insert_cache_dup)
  next
    case True
    note new = True
    show ?thesis
    proof (cases "cache_size c < capacity c")
      case True
      have "counts_in_range (c\<lparr>cache := (cache c)[cache_size c := ?e],
              cache_size := cache_size c + 1,
              index_map := (index_map c)(generate_message_id sndr ts \<mapsto> cache_size c)\<rparr>)
            = counts_in_range (c\<lparr>cache := (cache c)[cache_size c := ?e]\<rparr>)"
        by (simp add: counts_in_range_def)
      with u show ?thesis unfolding insert_cache_free [OF new True] by simp
    next
      case False
      have "counts_in_range (c\<lparr>cache := (cache c)[find_lru_index c := ?e],
              index_map := ((if valid (cache c ! find_lru_index c)
                   then (index_map c)(message_id (cache c ! find_lru_index c) := None)
                   else index_map c))
                             (generate_message_id sndr ts \<mapsto> find_lru_index c)\<rparr>)
            = counts_in_range (c\<lparr>cache := (cache c)[find_lru_index c := ?e]\<rparr>)"
        by (simp add: counts_in_range_def)
      with u show ?thesis unfolding insert_cache_full_gen [OF new False] by simp
    qed
  qed
qed

lemma counts_in_range_lookup:
  "counts_in_range c \<Longrightarrow> counts_in_range (snd (snd (lookup c mid)))"
  by (simp add: lookup_frame counts_in_range_irrelevant)

lemma counts_in_range_update_access:
  assumes "counts_in_range c"
  shows "counts_in_range (update_access c mid now)"
proof -
  have "counts_in_range (c\<lparr>cache := (cache c)[j := (cache c ! j)
          \<lparr>last_access := now, access_count := int32_wrap (access_count (cache c ! j) + 1)\<rparr>]\<rparr>)" for j
    by (rule counts_in_range_update [OF assms]) (simp_all add: int32_wrap_range)
  with assms show ?thesis
    by (simp add: update_access_def split: option.splits)
qed

lemma counts_in_range_clear: "counts_in_range c \<Longrightarrow> counts_in_range (clear c)"
proof -
  assume a: "counts_in_range c"
  have "set (take (cache_size c) (cache c)) \<subseteq> set (cache c)"
       "set (drop (cache_size c) (cache c)) \<subseteq> set (cache c)"
    by (rule set_take_subset, rule set_drop_subset)
  with a show ?thesis
    unfolding counts_in_range_def clear_def clear_entry_def by auto
qed

lemma counts_in_range_apply_op: "counts_in_range c \<Longrightarrow> counts_in_range (apply_op c x)"
  by (cases x)
     (simp_all add: counts_in_range_insert counts_in_range_lookup counts_in_range_update_access
        counts_in_range_clear)

lemma counts_in_range_run_ops: "counts_in_range c \<Longrightarrow> counts_in_range (run_ops c ops)"
  unfolding run_ops_def by (induction ops arbitrary: c) (simp_all add: counts_in_range_apply_op)

lemma counts_in_range_reachable:
  "MessageCache_new cap = Inr c0 \<Longrightarrow> counts_in_range (run_ops c0 ops)"
proof -
  assume "MessageCache_new cap = Inr c0"
  then have "counts_in_range c0"
    by (auto simp: MessageCache_new_def MessageCache_init_def counts_in_range_def
          CacheEntry_default_def INT_MIN_def INT_MAX_def split: if_splits)
  then show ?thesis by (rule counts_in_range_run_ops)
qed

lemma insert_keeps_other_entries:
  assumes inv: "cache_inv c" and i: "i < cache_size c"
    and same: "message_id (cache (snd (insert_cache c sndr cont ts now)) ! i) = message_id (cache c ! i)"
  shows "cache (snd (insert_cache c sndr cont ts now)) ! i = cache c ! i"
proof (cases "index_map c (generate_message_id sndr ts) = None")
  case False
  then show ?thesis by (simp add: insert_cache_dup)
next
  case True
  note new = True
  from cache_inv_fwd [OF inv i] new
  have ne: "message_id (cache c ! i) \<noteq> generate_message_id sndr ts" by auto
  from inv i have il: "i < length (cache c)" by (simp add: cache_inv_def)
  show ?thesis
  proof (cases "cache_size c < capacity c")
    case True
    show ?thesis unfolding insert_cache_free [OF new True] using i by simp
  next
    case False
    have "i \<noteq> find_lru_index c"
    proof
      assume "i = find_lru_index c"
      with same il have "message_id (cache c ! i) = generate_message_id sndr ts"
        unfolding insert_cache_full_gen [OF new False] by (simp add: new_entry_def)
      with ne show False by simp
    qed
    then show ?thesis unfolding insert_cache_full_gen [OF new False] by simp
  qed
qed

lemma msg_id_evals:
  "generate_message_id ''a'' 1 = ''a_1''" "generate_message_id ''b'' 2 = ''b_2''"
  "generate_message_id ''c'' 3 = ''c_3''"
  by (simp_all add: generate_message_id_def to_string_def dec_digits.simps)

lemma lru_fixture_eval:
  "lru_fixture =
     \<lparr>cache = [new_entry ''a_1'' ''x'' ''a'' 1 10, new_entry ''b_2'' ''y'' ''b'' 2 5],
      capacity = 2, cache_size = 2, index_map = [''a_1'' \<mapsto> 0, ''b_2'' \<mapsto> 1],
      hits = 1, misses = 0\<rparr>"
  by (simp add: lru_fixture_def run_ops_def MessageCache_init_def insert_cache_def lookup_def
      msg_id_evals new_entry_def numeral_2_eq_2 Let_def)

lemma new_fixture: "MessageCache_new 2 = Inr (MessageCache_init 2)"
  by (simp add: MessageCache_new_def)

lemma reach_fixture:
  "lru_fixture =
     run_ops (MessageCache_init 2) [Insert ''a'' ''x'' 1 10, Insert ''b'' ''y'' 2 5, Lookup ''a_1'']"
  by (simp add: lru_fixture_def)


subsection \<open>C1\<close>

text \<open>
  Claim C1. On a cache reached from the constructor by any sequence of calls, which is
  full, an insert with a fingerprint that is not in the index returns true and evicts
  exactly one entry: there is a slot \<open>j\<close>, the one and only least recently used live
  slot (valid, smallest last-access time, lowest index among ties), whose fingerprint was
  indexed; the insert overwrites slot \<open>j\<close> alone, removes that fingerprint from the index
  and maps the new one to \<open>j\<close>; the evicted fingerprint is the only one that leaves the
  index.
\<close>

theorem insert_full_evicts_lru:
  assumes "MessageCache_new cap = Inr c0" and "c = run_ops c0 ops"
    and "cache_size c = capacity c"
    and "index_map c (generate_message_id sndr ts) = None"
  shows "\<exists>j. is_lru c j \<and> (\<forall>j'. is_lru c j' \<longrightarrow> j' = j) \<and>
           index_map c (message_id (cache c ! j)) = Some j \<and>
           insert_cache c sndr cont ts now =
             (True, c\<lparr>cache := (cache c)[j :=
                          new_entry (generate_message_id sndr ts) cont sndr ts now],
                      index_map := ((index_map c)(message_id (cache c ! j) := None))
                                     (generate_message_id sndr ts \<mapsto> j)\<rparr>) \<and>
           {k \<in> dom (index_map c). k \<notin> dom (index_map (snd (insert_cache c sndr cont ts now)))}
             = {message_id (cache c ! j)}"
proof -
  let ?k = "generate_message_id sndr ts"
  let ?j = "find_lru_index c"
  have inv: "cache_inv c"
    using assms(1,2) by (simp add: cache_inv_reachable)
  then have pos: "0 < cache_size c"
    using assms(3) by (simp add: cache_inv_def)
  have lru: "is_lru c ?j" by (rule find_lru_index_is_lru [OF inv pos])
  then have v: "valid (cache c ! ?j)" and lt: "?j < cache_size c"
    by (simp_all add: is_lru_def)
  have live: "index_map c (message_id (cache c ! ?j)) = Some ?j"
    using inv lt by (simp add: cache_inv_def)
  have full: "\<not> cache_size c < capacity c" using assms(3) by simp
  note ins = insert_cache_full [OF assms(4) full v, of cont now]
  have ne: "message_id (cache c ! ?j) \<noteq> ?k" using live assms(4) by auto
  have gone: "{k \<in> dom (index_map c). k \<notin> dom (index_map (snd (insert_cache c sndr cont ts now)))}
             = {message_id (cache c ! ?j)}"
    unfolding ins snd_conv using live ne assms(4) by (auto split: if_splits)
  show ?thesis
    using lru is_lru_unique [OF _ lru] live ins gone by blast
qed

theorem insert_full_evicts_lru_witness:
  "\<exists>j. is_lru lru_fixture j \<and> (\<forall>j'. is_lru lru_fixture j' \<longrightarrow> j' = j) \<and>
           index_map lru_fixture (message_id (cache lru_fixture ! j)) = Some j \<and>
           insert_cache lru_fixture ''c'' ''z'' 3 20 =
             (True, lru_fixture\<lparr>cache := (cache lru_fixture)[j :=
                          new_entry (generate_message_id ''c'' 3) ''z'' ''c'' 3 20],
                      index_map := ((index_map lru_fixture)(message_id (cache lru_fixture ! j) := None))
                                     (generate_message_id ''c'' 3 \<mapsto> j)\<rparr>) \<and>
           {k \<in> dom (index_map lru_fixture).
              k \<notin> dom (index_map (snd (insert_cache lru_fixture ''c'' ''z'' 3 20)))}
             = {message_id (cache lru_fixture ! j)}"
proof -
  have f: "cache_size lru_fixture = capacity lru_fixture"
    by (simp add: lru_fixture_eval)
  have k: "index_map lru_fixture (generate_message_id ''c'' 3) = None"
    by (simp add: lru_fixture_eval msg_id_evals)
  show ?thesis by (rule insert_full_evicts_lru [OF new_fixture reach_fixture f k])
qed

subsection \<open>C2\<close>

text \<open>
  Claim C2. On a cache reached from the constructor by any sequence of calls (insert,
  lookup, update_access, clear), an insert whose fingerprint is held by a live slot
  returns false and returns the cache unchanged: size, counters, index and every entry
  are those of before. In particular a second insert of the same (sender, timestamp)
  pair right after the first returns false and changes nothing.
\<close>

theorem duplicate_insert_rejected:
  assumes "MessageCache_new cap = Inr c0" and "c = run_ops c0 ops"
  shows "(\<forall>i. i < cache_size c \<and> valid (cache c ! i) \<and>
              message_id (cache c ! i) = generate_message_id sndr ts \<longrightarrow>
            insert_cache c sndr cont ts now = (False, c)) \<and>
         insert_cache (snd (insert_cache c sndr cont' ts now')) sndr cont ts now
           = (False, snd (insert_cache c sndr cont' ts now'))"
proof -
  let ?k = "generate_message_id sndr ts"
  have inv: "cache_inv c"
    using assms by (simp add: cache_inv_reachable)
  have a: "insert_cache c sndr cont ts now = (False, c)"
    if "i < cache_size c \<and> valid (cache c ! i) \<and> message_id (cache c ! i) = ?k" for i
  proof -
    from cache_inv_fwd [OF inv, of i] that have "index_map c ?k = Some i" by simp
    then show ?thesis by (simp add: insert_cache_dup)
  qed
  have "index_map (snd (insert_cache c sndr cont' ts now')) ?k \<noteq> None"
    by (rule insert_cache_indexed)
  then have b: "insert_cache (snd (insert_cache c sndr cont' ts now')) sndr cont ts now
           = (False, snd (insert_cache c sndr cont' ts now'))"
    by (rule insert_cache_dup)
  from a b show ?thesis by blast
qed

theorem duplicate_insert_rejected_witness:
  "insert_cache lru_fixture ''b'' ''other'' 2 99 = (False, lru_fixture)"
proof -
  have "1 < cache_size lru_fixture \<and> valid (cache lru_fixture ! 1) \<and>
        message_id (cache lru_fixture ! 1) = generate_message_id ''b'' 2"
    by (simp add: lru_fixture_eval msg_id_evals new_entry_def)
  with duplicate_insert_rejected [OF new_fixture reach_fixture, of "''b''" 2 "''other''" 99]
  show ?thesis by blast
qed

subsection \<open>C3\<close>

text \<open>
  Claim C3. After any sequence of calls on a cache constructed with a positive capacity,
  the capacity is the configured one, the size is at most the capacity, every
  fingerprint in the index maps to a slot below the size that is valid and holds that
  fingerprint, and every slot below the size is valid and indexed under its fingerprint.
\<close>

theorem size_bounded_index_consistent:
  assumes "MessageCache_new cap = Inr c0" and "c = run_ops c0 ops"
  shows "int (capacity c) = cap \<and> cache_size c \<le> capacity c \<and>
         (\<forall>k i. index_map c k = Some i \<longrightarrow>
            i < cache_size c \<and> valid (cache c ! i) \<and> message_id (cache c ! i) = k) \<and>
         (\<forall>i < cache_size c. valid (cache c ! i) \<and>
            index_map c (message_id (cache c ! i)) = Some i)"
proof -
  have inv: "cache_inv c"
    using assms by (simp add: cache_inv_reachable)
  have "int (capacity c0) = cap"
    using assms(1) by (auto simp: MessageCache_new_def MessageCache_init_def split: if_splits)
  then have "int (capacity c) = cap" using assms(2) by (simp add: capacity_run_ops)
  with inv show ?thesis unfolding cache_inv_def by blast
qed

theorem size_bounded_index_consistent_witness:
  "cache_size lru_fixture \<le> capacity lru_fixture \<and> capacity lru_fixture = 2 \<and>
   index_map lru_fixture ''b_2'' = Some 1 \<and> message_id (cache lru_fixture ! 1) = ''b_2''"
proof -
  have "index_map lru_fixture ''b_2'' = Some 1" by (simp add: lru_fixture_eval)
  with size_bounded_index_consistent [OF new_fixture reach_fixture]
  show ?thesis by auto
qed

subsection \<open>C4\<close>

text \<open>
  Claim C4. \<open>lookup\<close> returns the cache with only the hit counter (on success) or the
  miss counter (on failure) incremented: entries, size and index are unchanged.
  \<open>update_access\<close> on the fingerprint of a live slot sets that slot's last-access time
  to the current time and increments its access count as the 32-bit \<^verbatim>\<open>int\<close> it is: the
  count is always within the range of \<^verbatim>\<open>int\<close>, the new count is the old one plus one
  below \<^verbatim>\<open>INT_MAX\<close>, and at \<^verbatim>\<open>INT_MAX\<close> it wraps to \<^verbatim>\<open>INT_MIN\<close>. \<open>update_access\<close>
  changes nothing when no live slot holds the fingerprint. No other call (insert,
  lookup, clear) changes the last-access time or the access count of a slot that stays
  live with the same fingerprint.
\<close>

theorem lookup_readonly_update_access_refreshes:
  assumes "MessageCache_new cap = Inr c0" and "c = run_ops c0 ops"
  shows "snd (snd (lookup c mid)) =
           (if fst (lookup c mid) then c\<lparr>hits := hits c + 1\<rparr> else c\<lparr>misses := misses c + 1\<rparr>) \<and>
         (\<forall>i. i < cache_size c \<and> message_id (cache c ! i) = mid \<longrightarrow>
            update_access c mid now =
              c\<lparr>cache := (cache c)[i := (cache c ! i)
                   \<lparr>last_access := now,
                    access_count := int32_wrap (access_count (cache c ! i) + 1)\<rparr>]\<rparr> \<and>
            INT_MIN \<le> access_count (cache c ! i) \<and> access_count (cache c ! i) \<le> INT_MAX \<and>
            (access_count (cache c ! i) < INT_MAX \<longrightarrow>
               int32_wrap (access_count (cache c ! i) + 1) = access_count (cache c ! i) + 1) \<and>
            (access_count (cache c ! i) = INT_MAX \<longrightarrow>
               int32_wrap (access_count (cache c ! i) + 1) = INT_MIN)) \<and>
         ((\<forall>i < cache_size c. message_id (cache c ! i) \<noteq> mid) \<longrightarrow> update_access c mid now = c) \<and>
         (\<forall>x i. (\<forall>m t. x \<noteq> UpdateAccess m t) \<and> i < cache_size c \<and> i < cache_size (apply_op c x) \<and>
                 message_id (cache (apply_op c x) ! i) = message_id (cache c ! i) \<longrightarrow>
            last_access (cache (apply_op c x) ! i) = last_access (cache c ! i) \<and>
            access_count (cache (apply_op c x) ! i) = access_count (cache c ! i))"
proof -
  have inv: "cache_inv c"
    using assms by (simp add: cache_inv_reachable)
  have rng: "counts_in_range c"
    using assms by (simp add: counts_in_range_reachable)
  have d: "cache (apply_op c x) ! i = cache c ! i"
    if "\<forall>m t. x \<noteq> UpdateAccess m t" "i < cache_size c" "i < cache_size (apply_op c x)"
       "message_id (cache (apply_op c x) ! i) = message_id (cache c ! i)" for x i
  proof (cases x)
    case (Insert sndr cont ts t)
    with that(4) have "message_id (cache (snd (insert_cache c sndr cont ts t)) ! i)
        = message_id (cache c ! i)" by simp
    from insert_keeps_other_entries [OF inv that(2) this] Insert show ?thesis by simp
  next
    case (Lookup m)
    then show ?thesis by (simp add: lookup_frame)
  next
    case (UpdateAccess m t)
    with that(1) show ?thesis by simp
  next
    case Clear
    with that(3) show ?thesis by (simp add: clear_def)
  qed
  have e: "\<forall>x i. (\<forall>m t. x \<noteq> UpdateAccess m t) \<and> i < cache_size c \<and> i < cache_size (apply_op c x) \<and>
                 message_id (cache (apply_op c x) ! i) = message_id (cache c ! i) \<longrightarrow>
            last_access (cache (apply_op c x) ! i) = last_access (cache c ! i) \<and>
            access_count (cache (apply_op c x) ! i) = access_count (cache c ! i)"
  proof (intro allI impI)
    fix x i
    assume h: "(\<forall>m t. x \<noteq> UpdateAccess m t) \<and> i < cache_size c \<and> i < cache_size (apply_op c x) \<and>
                 message_id (cache (apply_op c x) ! i) = message_id (cache c ! i)"
    then have "cache (apply_op c x) ! i = cache c ! i" by (intro d) simp_all
    then show "last_access (cache (apply_op c x) ! i) = last_access (cache c ! i) \<and>
            access_count (cache (apply_op c x) ! i) = access_count (cache c ! i)" by simp
  qed
  have u: "update_access c mid now =
              c\<lparr>cache := (cache c)[i := (cache c ! i)
                   \<lparr>last_access := now,
                    access_count := int32_wrap (access_count (cache c ! i) + 1)\<rparr>]\<rparr> \<and>
            INT_MIN \<le> access_count (cache c ! i) \<and> access_count (cache c ! i) \<le> INT_MAX \<and>
            (access_count (cache c ! i) < INT_MAX \<longrightarrow>
               int32_wrap (access_count (cache c ! i) + 1) = access_count (cache c ! i) + 1) \<and>
            (access_count (cache c ! i) = INT_MAX \<longrightarrow>
               int32_wrap (access_count (cache c ! i) + 1) = INT_MIN)"
    if "i < cache_size c \<and> message_id (cache c ! i) = mid" for i
  proof -
    from that inv have "i < length (cache c)" by (simp add: cache_inv_def)
    then have "cache c ! i \<in> set (cache c)" by simp
    with rng have r: "INT_MIN \<le> access_count (cache c ! i)" "access_count (cache c ! i) \<le> INT_MAX"
      by (auto simp: counts_in_range_def)
    from that have l: "update_access c mid now =
              c\<lparr>cache := (cache c)[i := (cache c ! i)
                   \<lparr>last_access := now,
                    access_count := int32_wrap (access_count (cache c ! i) + 1)\<rparr>]\<rparr>"
      by (intro update_access_live [OF inv]) simp_all
    from l r int32_wrap_increment [OF r(1)] int32_wrap_overflow show ?thesis by auto
  qed
  have a: "(\<forall>i < cache_size c. message_id (cache c ! i) \<noteq> mid) \<longrightarrow> update_access c mid now = c"
    using update_access_absent [OF inv, of mid now] by blast
  from lookup_frame [of c mid] u a e show ?thesis by (intro conjI) blast+
qed

theorem lookup_readonly_update_access_refreshes_witness:
  "snd (snd (lookup lru_fixture ''a_1'')) = lru_fixture\<lparr>hits := 2\<rparr> \<and>
   update_access lru_fixture ''a_1'' 30 =
     lru_fixture\<lparr>cache := (cache lru_fixture)[0 := (cache lru_fixture ! 0)
        \<lparr>last_access := 30, access_count := 2\<rparr>]\<rparr> \<and>
   last_access (cache (apply_op lru_fixture (Lookup ''a_1'')) ! 0) = 10"
proof -
  note t = lookup_readonly_update_access_refreshes [OF new_fixture reach_fixture, of "''a_1''" 30]
  have l: "fst (lookup lru_fixture ''a_1'')" "hits lru_fixture = 1"
    by (simp_all add: lru_fixture_eval lookup_def new_entry_def)
  have m: "0 < cache_size lru_fixture \<and> message_id (cache lru_fixture ! 0) = ''a_1''"
    "access_count (cache lru_fixture ! 0) = 1" "last_access (cache lru_fixture ! 0) = 10"
    by (simp_all add: lru_fixture_eval new_entry_def)
  have c: "cache_size (apply_op lru_fixture (Lookup ''a_1'')) = 2"
     "message_id (cache (apply_op lru_fixture (Lookup ''a_1'')) ! 0) = ''a_1''"
    by (simp_all add: lru_fixture_eval lookup_def new_entry_def)
  have w: "int32_wrap 2 = 2"
    using int32_wrap_increment [of 1] by (simp add: INT_MIN_def INT_MAX_def)
  from t l have "snd (snd (lookup lru_fixture ''a_1'')) = lru_fixture\<lparr>hits := 2\<rparr>" by simp
  moreover from t m w have "update_access lru_fixture ''a_1'' 30 =
     lru_fixture\<lparr>cache := (cache lru_fixture)[0 := (cache lru_fixture ! 0)
        \<lparr>last_access := 30, access_count := 2\<rparr>]\<rparr>" by simp
  moreover from t m c have "last_access (cache (apply_op lru_fixture (Lookup ''a_1'')) ! 0) = 10"
    by (metis cache_op.distinct(7) zero_less_numeral)
  ultimately show ?thesis by blast
qed

section \<open>RoundRobinScheduler: the ring built by add_client\<close>

lemma ring_nodes_length [simp]: "length (ring_nodes cs st) = length cs"
  by (simp add: ring_nodes_def)

lemma ring_nodes_nth:
  "i < length cs \<Longrightarrow> ring_nodes cs st ! i =
     \<lparr>socket_fd = fst (cs ! i), user_id = snd (cs ! i), last_scheduled = st ! i,
      next_client = Some (Suc i mod length cs)\<rparr>"
  by (simp add: ring_nodes_def)

lemma exists_loop_ring:
  assumes "i < length cs"
  shows "exists_loop (ring_nodes cs st) 0 i fd = Some (fd \<in> fst ` set (drop i cs))"
  using assms
proof (induction "length cs - i" arbitrary: i rule: less_induct)
  case less
  note i = less.prems
  have d: "drop i cs = cs ! i # drop (Suc i) cs"
    using i by (simp add: Cons_nth_drop_Suc)
  show ?case
  proof (cases "fst (cs ! i) = fd")
    case True
    then show ?thesis using i d
      by (subst exists_loop.simps) (simp add: ring_nodes_nth)
  next
    case False
    show ?thesis
    proof (cases "Suc i = length cs")
      case True
      then show ?thesis using i d False
        by (subst exists_loop.simps) (auto simp: ring_nodes_nth)
    next
      case ne: False
      with i have lt: "Suc i < length cs" by simp
      have ih: "exists_loop (ring_nodes cs st) 0 (Suc i) fd = Some (fd \<in> fst ` set (drop (Suc i) cs))"
        by (rule less.hyps) (use lt in simp_all)
      show ?thesis using i d False lt ih
        by (subst exists_loop.simps) (auto simp: ring_nodes_nth)
    qed
  qed
qed

lemma last_loop_ring:
  assumes "i < length cs"
  shows "last_loop (ring_nodes cs st) 0 i = Some (length cs - 1)"
  using assms
proof (induction "length cs - i" arbitrary: i rule: less_induct)
  case less
  note i = less.prems
  show ?case
  proof (cases "Suc i = length cs")
    case True
    then show ?thesis using i
      by (subst last_loop.simps) (auto simp: ring_nodes_nth)
  next
    case ne: False
    with i have lt: "Suc i < length cs" by simp
    have ih: "last_loop (ring_nodes cs st) 0 (Suc i) = Some (length cs - 1)"
      by (rule less.hyps) (use lt in simp_all)
    show ?thesis using i lt ih
      by (subst last_loop.simps) (auto simp: ring_nodes_nth)
  qed
qed


lemma ring_nodes_snoc:
  assumes "length st = length cs" "cs \<noteq> []"
  shows "(ring_nodes cs st)[length cs - 1 :=
            (ring_nodes cs st ! (length cs - 1))\<lparr>next_client := Some (length cs)\<rparr>]
          @ [\<lparr>socket_fd = fd, user_id = uid, last_scheduled = 0, next_client = Some 0\<rparr>]
         = ring_nodes (cs @ [(fd, uid)]) (st @ [0])"
proof (rule nth_equalityI)
  show "length ((ring_nodes cs st)[length cs - 1 :=
            (ring_nodes cs st ! (length cs - 1))\<lparr>next_client := Some (length cs)\<rparr>]
          @ [\<lparr>socket_fd = fd, user_id = uid, last_scheduled = 0, next_client = Some 0\<rparr>])
        = length (ring_nodes (cs @ [(fd, uid)]) (st @ [0]))"
    by simp
next
  fix i
  assume "i < length ((ring_nodes cs st)[length cs - 1 :=
            (ring_nodes cs st ! (length cs - 1))\<lparr>next_client := Some (length cs)\<rparr>]
          @ [\<lparr>socket_fd = fd, user_id = uid, last_scheduled = 0, next_client = Some 0\<rparr>])"
  then have i: "i < Suc (length cs)" by simp
  let ?n = "length cs"
  from assms(2) have pos: "0 < ?n" by simp
  consider "i = ?n" | "i = ?n - 1" | "i < ?n - 1" using i by linarith
  then show "((ring_nodes cs st)[?n - 1 :=
            (ring_nodes cs st ! (?n - 1))\<lparr>next_client := Some ?n\<rparr>]
          @ [\<lparr>socket_fd = fd, user_id = uid, last_scheduled = 0, next_client = Some 0\<rparr>]) ! i
        = ring_nodes (cs @ [(fd, uid)]) (st @ [0]) ! i"
  proof cases
    case 1
    then show ?thesis using assms(1)
      by (simp add: nth_append ring_nodes_nth)
  next
    case 2
    then show ?thesis using assms(1) pos
      by (simp add: nth_append ring_nodes_nth)
  next
    case 3
    then show ?thesis using assms(1) pos
      by (simp add: nth_append ring_nodes_nth)
  qed
qed

lemma int32_wrap_succ: "int32_wrap (int32_wrap k + 1) = int32_wrap (k + 1)"
proof -
  have "signed_take_bit 31 (signed_take_bit 31 k + signed_take_bit 31 1)
        = signed_take_bit 31 (k + (1::int))"
    by (rule signed_take_bit_add)
  moreover have "signed_take_bit 31 (1::int) = 1"
    by (rule signed_take_bit_int_eq_self) simp_all
  ultimately show ?thesis by (simp add: int32_wrap_def)
qed

lemma add_client_ring:
  assumes "fd \<notin> fst ` set cs" "length st = length cs" "cs = [] \<longrightarrow> cur = 0"
  shows "add_client (ring_state q cs st cur) fd uid
         = Some (ring_state q (cs @ [(fd, uid)]) (st @ [0]) cur)"
proof (cases "cs = []")
  case True
  have "ring_nodes [(fd, uid)] [0] =
          [\<lparr>socket_fd = fd, user_id = uid, last_scheduled = 0, next_client = Some 0\<rparr>]"
    by (simp add: ring_nodes_def)
  moreover have "ring_nodes [] st = []"
    by (simp add: ring_nodes_def)
  moreover have "int32_wrap (int32_wrap 0 + 1) = int32_wrap 1"
    using int32_wrap_succ [of 0] by simp
  ultimately show ?thesis using True assms
    by (simp add: add_client_def ring_state_def)
next
  case False
  then have pos: "0 < length cs" by simp
  have e: "exists_loop (ring_nodes cs st) 0 0 fd = Some False"
    using exists_loop_ring [OF pos, of st fd] assms(1) by simp
  have l: "last_loop (ring_nodes cs st) 0 0 = Some (length cs - 1)"
    by (rule last_loop_ring [OF pos])
  have w: "int32_wrap (int32_wrap (int (length cs)) + 1) = int32_wrap (1 + int (length cs))"
    using int32_wrap_succ [of "int (length cs)"] by (simp add: ac_simps)
  show ?thesis
    using False e l w ring_nodes_snoc [OF assms(2) False, of fd uid]
    by (simp add: add_client_def ring_state_def)
qed

lemma add_client_ring_known:
  assumes "fd \<in> fst ` set cs"
  shows "add_client (ring_state q cs st cur) fd uid = Some (ring_state q cs st cur)"
proof -
  from assms have ne: "cs \<noteq> []" by auto
  then have pos: "0 < length cs" by simp
  have e: "exists_loop (ring_nodes cs st) 0 0 fd = Some True"
    using exists_loop_ring [OF pos, of st fd] assms by simp
  show ?thesis
    using ne e by (simp add: add_client_def ring_state_def)
qed

lemma ring_nodes_stamp:
  assumes "cur < length cs" "length st = length cs"
  shows "(ring_nodes cs st)[cur := (ring_nodes cs st ! cur)\<lparr>last_scheduled := now\<rparr>]
         = ring_nodes cs (st[cur := now])"
proof (rule nth_equalityI)
  show "length ((ring_nodes cs st)[cur := (ring_nodes cs st ! cur)\<lparr>last_scheduled := now\<rparr>])
        = length (ring_nodes cs (st[cur := now]))"
    by simp
next
  fix i
  assume "i < length ((ring_nodes cs st)[cur := (ring_nodes cs st ! cur)\<lparr>last_scheduled := now\<rparr>])"
  then have i: "i < length cs" by simp
  show "(ring_nodes cs st)[cur := (ring_nodes cs st ! cur)\<lparr>last_scheduled := now\<rparr>] ! i
        = ring_nodes cs (st[cur := now]) ! i"
    using i assms by (cases "i = cur") (simp_all add: ring_nodes_nth)
qed

lemma get_next_client_ring:
  assumes "cur < length cs" "length st = length cs"
  shows "get_next_client (ring_state q cs st cur) now
         = (Some cur, ring_state q cs (st[cur := now]) (Suc cur mod length cs))"
proof -
  from assms have ne: "cs \<noteq> []" by auto
  show ?thesis
    using ne assms(1) ring_nodes_stamp [OF assms, of now]
    by (simp add: get_next_client_def ring_state_def ring_nodes_nth)
qed

lemma selected_client_ring:
  assumes "cur < length cs" "length st = length cs"
  shows "selected_client (get_next_client (ring_state q cs st cur) now)
         = Some (fst (cs ! cur), snd (cs ! cur), now)"
  using assms unfolding get_next_client_ring [OF assms]
  by (simp add: selected_client_def ring_state_def ring_nodes_nth)

lemma next_calls_ring:
  assumes "cur < length cs" "length st = length cs"
  shows "next_calls (ring_state q cs st cur) ts
         = map (\<lambda>k. Some (fst (cs ! ((cur + k) mod length cs)),
                           snd (cs ! ((cur + k) mod length cs)), ts ! k)) [0..<length ts]"
  using assms
proof (induction ts arbitrary: cur st)
  case Nil
  then show ?case by simp
next
  case (Cons t ts)
  from Cons.prems(1) have "0 < length cs" by (cases cs) simp_all
  then have lt: "Suc cur mod length cs < length cs" by simp
  have ih: "next_calls (ring_state q cs (st[cur := t]) (Suc cur mod length cs)) ts
         = map (\<lambda>k. Some (fst (cs ! ((Suc cur mod length cs + k) mod length cs)),
                           snd (cs ! ((Suc cur mod length cs + k) mod length cs)), ts ! k))
             [0..<length ts]"
    by (rule Cons.IH [OF lt]) (use Cons.prems in simp)
  have m: "(Suc cur mod length cs + k) mod length cs = (cur + Suc k) mod length cs" for k
    by (simp add: mod_add_left_eq)
  have u: "[0..<length (t # ts)] = 0 # map Suc [0..<length ts]"
    by (simp add: upt_conv_Cons map_Suc_upt del: upt_Suc)
  have "next_calls (ring_state q cs st cur) (t # ts)
        = Some (fst (cs ! cur), snd (cs ! cur), t)
          # next_calls (snd (get_next_client (ring_state q cs st cur) t)) ts"
    by (simp only: next_calls.simps selected_client_ring [OF Cons.prems])
  also have "\<dots> = Some (fst (cs ! cur), snd (cs ! cur), t)
          # map (\<lambda>k. Some (fst (cs ! ((cur + Suc k) mod length cs)),
                           snd (cs ! ((cur + Suc k) mod length cs)), ts ! k)) [0..<length ts]"
    by (simp add: get_next_client_ring [OF Cons.prems] ih m)
  also have "\<dots> = map (\<lambda>k. Some (fst (cs ! ((cur + k) mod length cs)),
                           snd (cs ! ((cur + k) mod length cs)), (t # ts) ! k)) [0..<length (t # ts)]"
    unfolding u using Cons.prems(1) by (simp add: comp_def)
  finally show ?case .
qed

lemma get_next_client_empty:
  "get_next_client (ring_state q [] st cur) t = (None, ring_state q [] st cur)"
  by (simp add: get_next_client_def ring_state_def)

lemma ring_step_ok: "ring_ok r \<Longrightarrow> ring_ok (ring_step r x)"
proof -
  assume ok: "ring_ok r"
  obtain cs st cur where r: "r = (cs, st, cur)" by (cases r)
  show ?thesis
  proof (cases x)
    case (Add fd uid)
    with ok r show ?thesis by (auto simp: ring_ok_def)
  next
    case (Next t)
    show ?thesis
    proof (cases "cs = []")
      case True
      with ok r Next show ?thesis by (simp add: ring_ok_def)
    next
      case False
      then have "Suc cur mod length cs < length cs" by simp
      with ok r Next False show ?thesis by (simp add: ring_ok_def)
    qed
  qed
qed

lemma ring_steps_ok: "ring_ok r \<Longrightarrow> ring_ok (foldl ring_step r ops)"
  by (induction ops arbitrary: r) (simp_all add: ring_step_ok)

lemma ring_steps_clients: "fst (foldl ring_step (cs, st, cur) ops) = registered_from cs ops"
proof (induction ops arbitrary: cs st cur)
  case Nil
  then show ?case by simp
next
  case (Cons x ops)
  then show ?case by (cases x) simp_all
qed

lemma registered_from_distinct:
  "distinct (map fst cs) \<Longrightarrow> distinct (map fst (registered_from cs ops))"
proof (induction ops arbitrary: cs)
  case Nil
  then show ?case by simp
next
  case (Cons x ops)
  show ?case
  proof (cases x)
    case (Add fd uid)
    have "distinct (map fst (if fd \<in> fst ` set cs then cs else cs @ [(fd, uid)]))"
      using Cons.prems by auto
    from Cons.IH [OF this] Add show ?thesis by simp
  next
    case (Next t)
    with Cons show ?thesis by simp
  qed
qed

lemma ring_steps_cursor:
  "\<forall>t. Next t \<notin> set ops \<Longrightarrow> snd (snd (foldl ring_step (cs, st, cur) ops)) = cur"
proof (induction ops arbitrary: cs st cur)
  case Nil
  then show ?case by simp
next
  case (Cons x ops)
  then show ?case by (cases x) auto
qed

text \<open>
  The pointer structure refines the index-addressed rotation: every call on the ring of
  \<open>(cs, st, cur)\<close> returns, and gives the ring of \<open>ring_step (cs, st, cur)\<close>.
\<close>

lemma sched_step_ring:
  assumes "ring_ok (cs, st, cur)"
  shows "run_sched (ring_state q cs st cur) [x]
         = Some (case ring_step (cs, st, cur) x of (cs', st', cur') \<Rightarrow> ring_state q cs' st' cur')"
proof (cases x)
  case (Add fd uid)
  show ?thesis
  proof (cases "fd \<in> fst ` set cs")
    case True
    with Add add_client_ring_known [OF True, of q st cur uid] show ?thesis by simp
  next
    case False
    have "add_client (ring_state q cs st cur) fd uid
         = Some (ring_state q (cs @ [(fd, uid)]) (st @ [0]) cur)"
      by (rule add_client_ring [OF False]) (use assms in \<open>simp_all add: ring_ok_def\<close>)
    with Add False show ?thesis by simp
  qed
next
  case (Next t)
  show ?thesis
  proof (cases "cs = []")
    case True
    with Next show ?thesis by (simp add: get_next_client_empty)
  next
    case False
    with assms have "cur < length cs" "length st = length cs" by (simp_all add: ring_ok_def)
    from get_next_client_ring [OF this, of q t] Next False show ?thesis by simp
  qed
qed

lemma run_sched_ring:
  assumes "ring_ok (cs, st, cur)"
  shows "run_sched (ring_state q cs st cur) ops
         = Some (case foldl ring_step (cs, st, cur) ops of
                   (cs', st', cur') \<Rightarrow> ring_state q cs' st' cur')"
  using assms
proof (induction ops arbitrary: cs st cur)
  case Nil
  then show ?case by simp
next
  case (Cons x ops)
  obtain cs' st' cur' where r: "ring_step (cs, st, cur) x = (cs', st', cur')"
    by (cases "ring_step (cs, st, cur) x")
  have ok: "ring_ok (cs', st', cur')"
    using ring_step_ok [OF Cons.prems, of x] r by simp
  have one: "run_sched (ring_state q cs st cur) [x] = Some (ring_state q cs' st' cur')"
    using sched_step_ring [OF Cons.prems, of q x] r by simp
  have "run_sched (ring_state q cs st cur) (x # ops) = run_sched (ring_state q cs' st' cur') ops"
  proof (cases x)
    case (Add fd uid)
    with one show ?thesis by (simp split: option.splits)
  next
    case (Next t)
    with one show ?thesis by simp
  qed
  with Cons.IH [OF ok] r show ?case by simp
qed

lemma fresh_is_ring: "RoundRobinScheduler_new q = Inr s0 \<Longrightarrow> s0 = ring_state q [] [] 0"
  by (auto simp: RoundRobinScheduler_new_def ring_state_def ring_nodes_def int32_wrap_def
        split: if_splits)

lemma fresh_rotation_new: "RoundRobinScheduler_new 100 = Inr fresh_rotation"
  by (simp add: RoundRobinScheduler_new_def fresh_rotation_def)

lemma run_sched_fresh:
  assumes "RoundRobinScheduler_new q = Inr s0"
  obtains st cur where
    "run_sched s0 ops = Some (ring_state q (registered ops) st cur)"
    "ring_ok (registered ops, st, cur)"
    "foldl ring_step ([], [], 0) ops = (registered ops, st, cur)"
proof -
  have ok0: "ring_ok ([], [], 0)" by (simp add: ring_ok_def)
  obtain cs st cur where f: "foldl ring_step ([], [], 0) ops = (cs, st, cur)"
    by (cases "foldl ring_step ([], [], 0) ops")
  have cs: "cs = registered ops"
    using ring_steps_clients [of "[]" "[]" 0 ops] f by (simp add: registered_def)
  have "ring_ok (cs, st, cur)" using ring_steps_ok [OF ok0, of ops] f by simp
  moreover have "run_sched s0 ops = Some (ring_state q cs st cur)"
    using run_sched_ring [OF ok0, of q ops] f fresh_is_ring [OF assms] by simp
  ultimately show ?thesis using that cs f by simp
qed

subsection \<open>C5\<close>

text \<open>
  The claim as stated fails when a call of \<open>get_next_client\<close> comes before a later
  \<open>add_client\<close>: after adding alice and bob, one call, and adding carol, the three
  clients are registered and none is removed, yet the next four calls return bob, carol,
  alice, bob. The cursor was on bob when carol was appended.
\<close>

theorem rotation_starts_at_cursor:
  "RoundRobinScheduler_new 100 = Inr fresh_rotation \<and>
   registered [Add 4 ''alice'', Add 5 ''bob'', Next 1, Add 6 ''carol'']
     = [(4, ''alice''), (5, ''bob''), (6, ''carol'')] \<and>
   calls_after fresh_rotation [Add 4 ''alice'', Add 5 ''bob'', Next 1, Add 6 ''carol'']
       [10, 11, 12, 13]
     = Some [Some (5, ''bob'', 10), Some (6, ''carol'', 11), Some (4, ''alice'', 12),
             Some (5, ''bob'', 13)]"
proof -
  have ok0: "ring_ok ([], [], 0)" by (simp add: ring_ok_def)
  have f: "fresh_rotation = ring_state 100 [] [] 0"
    by (rule fresh_is_ring [OF fresh_rotation_new])
  have r: "run_sched fresh_rotation [Add 4 ''alice'', Add 5 ''bob'', Next 1, Add 6 ''carol'']
           = Some (ring_state 100 [(4, ''alice''), (5, ''bob''), (6, ''carol'')] [1, 0, 0] 1)"
    unfolding f run_sched_ring [OF ok0] by simp
  have u: "[0..<4] = [0, 1, 2, 3::nat]" by (simp add: upt_rec)
  have n: "next_calls (ring_state 100 [(4, ''alice''), (5, ''bob''), (6, ''carol'')] [1, 0, 0] 1)
             [10, 11, 12, 13]
           = [Some (5, ''bob'', 10), Some (6, ''carol'', 11), Some (4, ''alice'', 12),
              Some (5, ''bob'', 13)]"
    by (subst next_calls_ring) (simp_all add: u)
  have g: "registered [Add 4 ''alice'', Add 5 ''bob'', Next 1, Add 6 ''carol'']
     = [(4, ''alice''), (5, ''bob''), (6, ''carol'')]"
    by (simp add: registered_def)
  from fresh_rotation_new g r n show ?thesis by (simp add: calls_after_def)
qed

text \<open>
  Claim C5, amended. Take a freshly constructed rotation and any sequence of
  \<open>add_client\<close> and \<open>get_next_client\<close> calls (no removal); every call returns. Let \<open>N\<close>
  be the number of clients registered; their descriptors are pairwise distinct. With \<open>N = 0\<close>, \<open>get_next_client\<close>
  returns \<^verbatim>\<open>nullptr\<close> and changes nothing. Otherwise the cursor is on one of the clients;
  a call returns the node under the cursor, stamps it with the clock value and moves the
  cursor to the next client in insertion order, the last one being followed by the
  first; so \<open>N\<close> consecutive calls return each client exactly once, in insertion order
  taken cyclically from the client under the cursor, and call \<open>N + 1\<close> returns the client
  of call 1 again. When no \<open>get_next_client\<close> call has been made before, the cursor is
  on the first client: the \<open>N\<close> calls return the clients in insertion order and call
  \<open>N + 1\<close> returns the first client again.
\<close>

theorem rotation_round_robin:
  assumes "RoundRobinScheduler_new q = Inr s0"
  shows "\<exists>s. run_sched s0 ops = Some s \<and>
           distinct (map fst (registered ops)) \<and>
           (registered ops = [] \<longrightarrow> get_next_client s now = (None, s)) \<and>
           (registered ops \<noteq> [] \<longrightarrow>
              (\<exists>cur < length (registered ops).
                 current s = Some cur \<and>
                 socket_fd (nodes s ! cur) = fst (registered ops ! cur) \<and>
                 fst (get_next_client s now) = Some cur \<and>
                 last_scheduled (nodes (snd (get_next_client s now)) ! cur) = now \<and>
                 current (snd (get_next_client s now))
                   = Some (Suc cur mod length (registered ops)) \<and>
                 (\<forall>ts. next_calls s ts =
                    map (\<lambda>k. Some (fst (registered ops ! ((cur + k) mod length (registered ops))),
                                   snd (registered ops ! ((cur + k) mod length (registered ops))),
                                   ts ! k)) [0..<length ts]) \<and>
                 ((\<forall>t. Next t \<notin> set ops) \<longrightarrow> cur = 0))) \<and>
           ((\<forall>t. Next t \<notin> set ops) \<and> registered ops \<noteq> [] \<longrightarrow>
              (\<forall>ts. length ts = Suc (length (registered ops)) \<longrightarrow>
                 next_calls s ts =
                   map (\<lambda>((fd, uid), t). Some (fd, uid, t))
                     (zip (registered ops @ [hd (registered ops)]) ts)))"
proof -
  let ?cs = "registered ops"
  from run_sched_fresh [OF assms, of ops] obtain st cur where
    run: "run_sched s0 ops = Some (ring_state q ?cs st cur)" and
    ok: "ring_ok (?cs, st, cur)" and
    fold: "foldl ring_step ([], [], 0) ops = (?cs, st, cur)"
    by blast
  let ?s = "ring_state q ?cs st cur"
  have len: "length st = length ?cs" using ok by (simp add: ring_ok_def)
  have empty: "?cs = [] \<longrightarrow> get_next_client ?s now = (None, ?s)"
    by (simp add: get_next_client_def ring_state_def)
  have zero: "cur = 0" if "\<forall>t. Next t \<notin> set ops"
    using ring_steps_cursor [OF that, of "[]" "[]" 0] fold by simp
  have calls: "next_calls ?s ts =
                 map (\<lambda>k. Some (fst (?cs ! ((cur + k) mod length ?cs)),
                                 snd (?cs ! ((cur + k) mod length ?cs)), ts ! k)) [0..<length ts]"
    if "?cs \<noteq> []" for ts
  proof -
    from that ok have "cur < length ?cs" by (simp add: ring_ok_def)
    then show ?thesis using len by (rule next_calls_ring)
  qed
  have cursor: "\<exists>cur' < length ?cs.
                 current ?s = Some cur' \<and>
                 socket_fd (nodes ?s ! cur') = fst (?cs ! cur') \<and>
                 fst (get_next_client ?s now) = Some cur' \<and>
                 last_scheduled (nodes (snd (get_next_client ?s now)) ! cur') = now \<and>
                 current (snd (get_next_client ?s now)) = Some (Suc cur' mod length ?cs) \<and>
                 (\<forall>ts. next_calls ?s ts =
                    map (\<lambda>k. Some (fst (?cs ! ((cur' + k) mod length ?cs)),
                                   snd (?cs ! ((cur' + k) mod length ?cs)),
                                   ts ! k)) [0..<length ts]) \<and>
                 ((\<forall>t. Next t \<notin> set ops) \<longrightarrow> cur' = 0)"
    if ne: "?cs \<noteq> []"
  proof -
    from ne ok have lt: "cur < length ?cs" by (simp add: ring_ok_def)
    note g = get_next_client_ring [OF lt len, of q now]
    have a: "current ?s = Some cur" using ne by (simp add: ring_state_def)
    have b: "socket_fd (nodes ?s ! cur) = fst (?cs ! cur)"
      using lt by (simp add: ring_state_def ring_nodes_nth)
    have c: "fst (get_next_client ?s now) = Some cur" unfolding g by simp
    have d: "last_scheduled (nodes (snd (get_next_client ?s now)) ! cur) = now"
      unfolding g using lt len by (simp add: ring_state_def ring_nodes_nth)
    have e: "current (snd (get_next_client ?s now)) = Some (Suc cur mod length ?cs)"
      unfolding g using ne by (simp add: ring_state_def)
    from lt a b c d e calls [OF ne] zero show ?thesis by blast
  qed
  have order: "next_calls ?s ts =
                 map (\<lambda>((fd, uid), t). Some (fd, uid, t)) (zip (?cs @ [hd ?cs]) ts)"
    if nn: "\<forall>t. Next t \<notin> set ops" and ne: "?cs \<noteq> []" and l: "length ts = Suc (length ?cs)"
    for ts
  proof -
    have "next_calls ?s ts =
            map (\<lambda>k. Some (fst (?cs ! ((0 + k) mod length ?cs)),
                            snd (?cs ! ((0 + k) mod length ?cs)), ts ! k)) [0..<length ts]"
      using calls [OF ne, of ts] zero [OF nn] by simp
    also have "\<dots> = map (\<lambda>((fd, uid), t). Some (fd, uid, t)) (zip (?cs @ [hd ?cs]) ts)"
    proof (rule nth_equalityI)
      show "length (map (\<lambda>k. Some (fst (?cs ! ((0 + k) mod length ?cs)),
                           snd (?cs ! ((0 + k) mod length ?cs)), ts ! k)) [0..<length ts])
            = length (map (\<lambda>((fd, uid), t). Some (fd, uid, t)) (zip (?cs @ [hd ?cs]) ts))"
        using l by simp
    next
      fix k
      assume "k < length (map (\<lambda>k. Some (fst (?cs ! ((0 + k) mod length ?cs)),
                           snd (?cs ! ((0 + k) mod length ?cs)), ts ! k)) [0..<length ts])"
      then have k: "k < Suc (length ?cs)" using l by simp
      have "(?cs @ [hd ?cs]) ! k = ?cs ! (k mod length ?cs)"
      proof (cases "k = length ?cs")
        case True
        then show ?thesis using ne by (simp add: nth_append hd_conv_nth)
      next
        case False
        with k have "k < length ?cs" by simp
        then show ?thesis by (simp add: nth_append)
      qed
      then show "map (\<lambda>k. Some (fst (?cs ! ((0 + k) mod length ?cs)),
                           snd (?cs ! ((0 + k) mod length ?cs)), ts ! k)) [0..<length ts] ! k
            = map (\<lambda>((fd, uid), t). Some (fd, uid, t)) (zip (?cs @ [hd ?cs]) ts) ! k"
        using k l by (simp add: case_prod_beta del: upt_Suc)
    qed
    finally show ?thesis .
  qed
  have dist: "distinct (map fst ?cs)"
    unfolding registered_def by (rule registered_from_distinct) simp
  from run dist empty cursor order show ?thesis by blast
qed

theorem rotation_round_robin_witness:
  "\<exists>s. run_sched fresh_rotation [Add 4 ''alice'', Add 5 ''bob''] = Some s \<and>
       next_calls s [10, 11, 12]
         = [Some (4, ''alice'', 10), Some (5, ''bob'', 11), Some (4, ''alice'', 12)]"
proof -
  have g: "registered [Add 4 ''alice'', Add 5 ''bob''] = [(4, ''alice''), (5, ''bob'')]"
    by (simp add: registered_def)
  have nn: "\<forall>t. Next t \<notin> set [Add 4 ''alice'', Add 5 ''bob'']" by simp
  from rotation_round_robin [OF fresh_rotation_new, of "[Add 4 ''alice'', Add 5 ''bob'']" 0]
  obtain s where
    a: "run_sched fresh_rotation [Add 4 ''alice'', Add 5 ''bob''] = Some s" and
    c: "(\<forall>t. Next t \<notin> set [Add 4 ''alice'', Add 5 ''bob'']) \<and>
        registered [Add 4 ''alice'', Add 5 ''bob''] \<noteq> [] \<longrightarrow>
        (\<forall>ts. length ts = Suc (length (registered [Add 4 ''alice'', Add 5 ''bob''])) \<longrightarrow>
           next_calls s ts =
             map (\<lambda>((fd, uid), t). Some (fd, uid, t))
               (zip (registered [Add 4 ''alice'', Add 5 ''bob'']
                     @ [hd (registered [Add 4 ''alice'', Add 5 ''bob''])]) ts))"
    by blast
  from c nn g have "\<forall>ts. length ts = Suc (Suc (Suc 0)) \<longrightarrow>
           next_calls s ts =
             map (\<lambda>((fd, uid), t). Some (fd, uid, t))
               (zip [(4, ''alice''), (5, ''bob''), (4, ''alice'')] ts)"
    by simp
  from this [rule_format, of "[10, 11, 12]"] have "next_calls s [10, 11, 12]
         = [Some (4, ''alice'', 10), Some (5, ''bob'', 11), Some (4, ''alice'', 12)]"
    by simp
  with a show ?thesis by blast
qed

section \<open>ThreadPool: tasks are conserved and workers exit on an empty queue\<close>

lemma in_flight_update:
  assumes "i < length ws"
  shows "in_flight (ws[i := w]) + held (ws ! i) = in_flight ws + held w"
  using assms unfolding in_flight_def
proof (induction ws arbitrary: i)
  case Nil
  then show ?case by simp
next
  case (Cons a ws)
  show ?case
  proof (cases i)
    case 0
    then show ?thesis by simp
  next
    case (Suc j)
    with Cons.prems have "j < length ws" by simp
    from Cons.IH [OF this] Suc show ?thesis
      by (simp add: ac_simps)
  qed
qed

lemma in_flight_all_exited:
  "\<forall>w \<in> set ws. w = Exited \<Longrightarrow> in_flight ws = {#}"
  unfolding in_flight_def by (induction ws) simp_all

lemma pool_step_all_tasks:
  assumes "pool_step p p'"
  shows "all_tasks p \<subseteq># all_tasks p'"
  using assms
proof (cases rule: pool_step.cases)
  case (step_enqueue task)
  then show ?thesis
    by (auto simp: enqueue_def all_tasks_def split: option.splits if_splits)
next
  case step_shutdown
  then show ?thesis by (simp add: shutdown_def all_tasks_def)
next
  case (step_critical i)
  from in_flight_update [OF step_critical(1), of Exited] step_critical(2)
  have e: "in_flight ((workers p)[i := Exited]) = in_flight (workers p)" by simp
  show ?thesis
  proof (cases "tasks p")
    case Nil
    with step_critical(3) e show ?thesis
      by (auto simp: worker_critical_def all_tasks_def split: if_splits)
  next
    case (Cons t q)
    from in_flight_update [OF step_critical(1), of "Holding t"] step_critical(2)
    have "in_flight ((workers p)[i := Holding t]) = in_flight (workers p) + {#t#}" by simp
    with step_critical(3) Cons show ?thesis
      by (auto simp: worker_critical_def all_tasks_def split: if_splits)
  qed
next
  case (step_begin i t)
  from in_flight_update [OF step_begin(2), of "Running t"] step_begin(3)
  have "in_flight ((workers p)[i := Running t]) = in_flight (workers p)" by simp
  with step_begin(1) show ?thesis by (simp add: worker_begin_def all_tasks_def)
next
  case (step_end i t)
  from in_flight_update [OF step_end(2), of Waiting] step_end(3)
  have "in_flight (workers p) = in_flight ((workers p)[i := Waiting]) + {#t#}" by simp
  with step_end(1) show ?thesis by (simp add: worker_end_def all_tasks_def)
qed

lemma pool_step_finished:
  assumes "pool_step p p'"
  shows "\<exists>xs. finished p' = finished p @ xs"
  using assms
  by (cases rule: pool_step.cases)
     (auto simp: enqueue_def shutdown_def worker_critical_def worker_begin_def worker_end_def
           split: option.splits if_splits list.splits)

lemma pool_step_inv:
  assumes "pool_step p p'" "pool_inv p"
  shows "pool_inv p'"
  using assms(1)
proof (cases rule: pool_step.cases)
  case (step_enqueue task)
  with assms(2) show ?thesis
    by (auto simp: enqueue_def pool_inv_def split: option.splits if_splits)
next
  case step_shutdown
  with assms(2) show ?thesis by (auto simp: shutdown_def pool_inv_def)
next
  case (step_critical i)
  show ?thesis
  proof (cases "tasks p")
    case Nil
    with step_critical(3) assms(2) show ?thesis
      by (auto simp: worker_critical_def pool_inv_def split: if_splits)
  next
    case (Cons t q)
    with assms(2) have ne: "Exited \<notin> set (workers p)" by (auto simp: pool_inv_def)
    have "Exited \<notin> set ((workers p)[i := Holding t])"
      using ne set_update_subset_insert [of "workers p" i "Holding t"] by auto
    with step_critical(3) Cons assms(2) show ?thesis
      by (auto simp: worker_critical_def pool_inv_def split: if_splits)
  qed
next
  case (step_begin i t)
  have "Exited \<in> set ((workers p)[i := Running t]) \<Longrightarrow> Exited \<in> set (workers p)"
    using set_update_subset_insert [of "workers p" i "Running t"] by auto
  with step_begin(1) assms(2) show ?thesis
    by (auto simp: worker_begin_def pool_inv_def)
next
  case (step_end i t)
  have "Exited \<in> set ((workers p)[i := Waiting]) \<Longrightarrow> Exited \<in> set (workers p)"
    using set_update_subset_insert [of "workers p" i Waiting] by auto
  with step_end(1) assms(2) show ?thesis
    by (auto simp: worker_end_def pool_inv_def)
qed

lemma pool_steps_all_tasks: "pool_step\<^sup>*\<^sup>* p p' \<Longrightarrow> all_tasks p \<subseteq># all_tasks p'"
  by (induction rule: rtranclp_induct) (auto dest: pool_step_all_tasks intro: subset_mset.order_trans)

lemma pool_steps_finished: "pool_step\<^sup>*\<^sup>* p p' \<Longrightarrow> \<exists>xs. finished p' = finished p @ xs"
  by (induction rule: rtranclp_induct) (auto dest: pool_step_finished)

lemma pool_steps_inv: "pool_step\<^sup>*\<^sup>* p p' \<Longrightarrow> pool_inv p \<Longrightarrow> pool_inv p'"
  by (induction rule: rtranclp_induct) (auto dest: pool_step_inv)

lemma pool_inv_new: "ThreadPool_new n = Inr p \<Longrightarrow> pool_inv p"
  by (auto simp: ThreadPool_new_def pool_inv_def split: if_splits)

lemma exit_only_when_stopped_and_empty:
  assumes "pool_step q q'" "i < length (workers q)" "workers q ! i \<noteq> Exited"
    "workers q' ! i = Exited"
  shows "stop q \<and> tasks q = []"
  using assms(1)
proof (cases rule: pool_step.cases)
  case (step_enqueue task)
  with assms(3,4) show ?thesis
    by (auto simp: enqueue_def split: option.splits if_splits)
next
  case step_shutdown
  with assms(3,4) show ?thesis by (simp add: shutdown_def)
next
  case (step_critical j)
  with assms(2,3,4) show ?thesis
    by (auto simp: worker_critical_def nth_list_update split: if_splits list.splits)
next
  case (step_begin j t)
  with assms(2,3,4) show ?thesis
    by (auto simp: worker_begin_def nth_list_update split: if_splits)
next
  case (step_end j t)
  with assms(2,3,4) show ?thesis
    by (auto simp: worker_end_def nth_list_update split: if_splits)
qed


lemma phase_work_update:
  assumes "i < length ws"
  shows "sum_list (map phase_work (ws[i := w])) + phase_work (ws ! i)
         = sum_list (map phase_work ws) + phase_work w"
  using assms
proof (induction ws arbitrary: i)
  case Nil
  then show ?case by simp
next
  case (Cons a ws)
  show ?case
  proof (cases i)
    case 0
    then show ?thesis by simp
  next
    case (Suc j)
    with Cons.prems have "j < length ws" by simp
    from Cons.IH [OF this] Suc show ?thesis by simp
  qed
qed

lemma pool_step_stop:
  assumes "pool_step s s'" "stop s"
  shows "stop s'"
  using assms(1)
proof (cases rule: pool_step.cases)
  case (step_enqueue task)
  with assms(2) show ?thesis by (simp add: enqueue_def split: option.splits)
next
  case step_shutdown
  then show ?thesis by (simp add: shutdown_def)
next
  case (step_critical i)
  with assms(2) show ?thesis
    by (auto simp: worker_critical_def split: if_splits list.splits)
next
  case (step_begin i t)
  with assms(2) show ?thesis by (simp add: worker_begin_def)
next
  case (step_end i t)
  with assms(2) show ?thesis by (simp add: worker_end_def)
qed

lemma pool_steps_stop: "pool_step\<^sup>*\<^sup>* s s' \<Longrightarrow> stop s \<Longrightarrow> stop s'"
  by (induction rule: rtranclp_induct) (auto dest: pool_step_stop)

lemma critical_takes_front:
  assumes "tasks s = t # q"
  shows "worker_critical s i = Some (s\<lparr>workers := (workers s)[i := Holding t], tasks := q\<rparr>)"
  using assms by (simp add: worker_critical_def)

lemma critical_exits:
  assumes "stop s" "tasks s = []"
  shows "worker_critical s i = Some (s\<lparr>workers := (workers s)[i := Exited]\<rparr>)"
  using assms by (simp add: worker_critical_def)

lemma work_after_take:
  assumes "i < length (workers s)" "workers s ! i = Waiting" "tasks s = t # q"
  shows "pool_work (s\<lparr>workers := (workers s)[i := Holding t], tasks := q\<rparr>) < pool_work s"
  using phase_work_update [OF assms(1), of "Holding t"] assms(2,3)
  by (simp add: pool_work_def)

lemma work_after_exit:
  assumes "i < length (workers s)" "workers s ! i = Waiting"
  shows "pool_work (s\<lparr>workers := (workers s)[i := Exited]\<rparr>) < pool_work s"
  using phase_work_update [OF assms(1), of Exited] assms(2)
  by (simp add: pool_work_def)

lemma work_after_begin:
  assumes "i < length (workers s)" "workers s ! i = Holding t"
  shows "pool_work (worker_begin s i t) < pool_work s"
  using phase_work_update [OF assms(1), of "Running t"] assms(2)
  by (simp add: pool_work_def worker_begin_def)

lemma work_after_end:
  assumes "i < length (workers s)" "workers s ! i = Running t"
  shows "pool_work (worker_end s i t) < pool_work s"
  using phase_work_update [OF assms(1), of Waiting] assms(2)
  by (simp add: pool_work_def worker_end_def)

lemma pool_step_work:
  assumes "pool_step s s'" "stop s"
  shows "s' = s \<or> pool_work s' < pool_work s"
  using assms(1)
proof (cases rule: pool_step.cases)
  case (step_enqueue task)
  with assms(2) show ?thesis by (simp add: enqueue_def split: option.splits)
next
  case step_shutdown
  with assms(2) show ?thesis by (simp add: shutdown_def)
next
  case (step_critical i)
  show ?thesis
  proof (cases "tasks s")
    case Nil
    with step_critical(3) assms(2) have "s' = s\<lparr>workers := (workers s)[i := Exited]\<rparr>"
      by (simp add: critical_exits)
    with work_after_exit [OF step_critical(1,2)] show ?thesis by simp
  next
    case (Cons t q)
    with step_critical(3) have "s' = s\<lparr>workers := (workers s)[i := Holding t], tasks := q\<rparr>"
      by (simp add: critical_takes_front)
    with work_after_take [OF step_critical(1,2) Cons] show ?thesis by simp
  qed
next
  case (step_begin i t)
  with work_after_begin [OF step_begin(2,3)] show ?thesis by simp
next
  case (step_end i t)
  with work_after_end [OF step_end(2,3)] show ?thesis by simp
qed

lemma pool_progress:
  assumes "stop s" "i < length (workers s)" "workers s ! i \<noteq> Exited"
  shows "\<exists>s'. pool_step s s' \<and> pool_work s' < pool_work s"
proof (cases "workers s ! i")
  case Waiting
  show ?thesis
  proof (cases "tasks s")
    case Nil
    have "pool_step s (s\<lparr>workers := (workers s)[i := Exited]\<rparr>)"
      by (rule step_critical [OF assms(2) Waiting critical_exits [OF assms(1) Nil]])
    with work_after_exit [OF assms(2) Waiting] show ?thesis by blast
  next
    case (Cons t q)
    have "pool_step s (s\<lparr>workers := (workers s)[i := Holding t], tasks := q\<rparr>)"
      by (rule step_critical [OF assms(2) Waiting critical_takes_front [OF Cons]])
    with work_after_take [OF assms(2) Waiting Cons] show ?thesis by blast
  qed
next
  case (Holding t)
  from step_begin [OF assms(2) Holding] work_after_begin [OF assms(2) Holding]
  show ?thesis by blast
next
  case (Running t)
  from step_end [OF assms(2) Running] work_after_end [OF assms(2) Running]
  show ?thesis by blast
next
  case Exited
  with assms(3) show ?thesis by simp
qed

lemma pool_drains:
  assumes "stop s"
  shows "\<exists>s'. pool_step\<^sup>*\<^sup>* s s' \<and> (\<forall>w \<in> set (workers s'). w = Exited)"
  using assms
proof (induction "pool_work s" arbitrary: s rule: less_induct)
  case less
  show ?case
  proof (cases "\<forall>w \<in> set (workers s). w = Exited")
    case True
    then show ?thesis by blast
  next
    case False
    then obtain i where i: "i < length (workers s)" "workers s ! i \<noteq> Exited"
      by (auto simp: in_set_conv_nth)
    from pool_progress [OF less.prems i] obtain s1 where
      s1: "pool_step s s1" "pool_work s1 < pool_work s" by blast
    from pool_step_stop [OF s1(1) less.prems] have "stop s1" .
    from less.hyps [OF s1(2) this] obtain s' where
      "pool_step\<^sup>*\<^sup>* s1 s'" "\<forall>w \<in> set (workers s'). w = Exited" by blast
    with s1(1) show ?thesis by (meson converse_rtranclp_into_rtranclp)
  qed
qed

lemma drained_all_finished:
  assumes "ThreadPool_new n = Inr p0" "pool_step\<^sup>*\<^sup>* p0 p" "pool_step\<^sup>*\<^sup>* (shutdown p) p'"
    and ex: "\<forall>w \<in> set (workers p'). w = Exited"
  shows "tasks p' = [] \<and>
         (\<exists>xs. finished p' = finished p @ xs \<and>
               mset (tasks p) + in_flight (workers p) \<subseteq># mset xs)"
proof -
  have "pool_step p (shutdown p)" by (rule step_shutdown)
  with assms(2) have "pool_step\<^sup>*\<^sup>* p0 (shutdown p)" by simp
  with assms(3) have "pool_step\<^sup>*\<^sup>* p0 p'" by simp
  then have inv: "pool_inv p'"
    by (rule pool_steps_inv) (rule pool_inv_new [OF assms(1)])
  from inv have "workers p' \<noteq> []" by (simp add: pool_inv_def)
  then obtain w where "w \<in> set (workers p')" by (cases "workers p'") auto
  with ex have "Exited \<in> set (workers p')" by auto
  with inv have empty: "tasks p' = []" by (simp add: pool_inv_def)
  from pool_steps_finished [OF assms(3)] obtain xs where
    xs: "finished p' = finished p @ xs" by (auto simp: shutdown_def)
  have "all_tasks (shutdown p) \<subseteq># all_tasks p'"
    by (rule pool_steps_all_tasks [OF assms(3)])
  then have "mset (tasks p) + in_flight (workers p) + mset (finished p)
               \<subseteq># mset (finished p) + mset xs"
    using empty in_flight_all_exited [OF ex] xs
    by (simp add: all_tasks_def shutdown_def)
  then have "mset (tasks p) + in_flight (workers p) \<subseteq># mset xs"
    by (simp add: ac_simps)
  with empty xs show ?thesis by blast
qed

subsection \<open>C9\<close>

text \<open>
  Claim C9. Take a pool made by the constructor, any state \<open>p\<close> it reaches, let the
  destructor set the stop flag there, and let \<open>p'\<close> be any state reached afterwards.
  No task is dropped: if all workers have exited in \<open>p'\<close>, the queue is empty and every
  task that was queued in \<open>p\<close>, as well as every task a worker had taken and not
  finished, has finished since; and in any step whatsoever in which a worker exits, the
  stop flag is set and the queue is empty before the step. The queued tasks do run: a
  waiting worker that finds a task in the queue takes the front one; as long as some
  worker of \<open>p'\<close> has not exited, some worker can do its next step; every step from \<open>p'\<close>
  either changes nothing or reduces the work that is left, so the pool cannot go on for
  ever without running the tasks; and from \<open>p'\<close> the pool reaches a state in which all
  workers have exited, the queue is empty and all those tasks have finished.
\<close>

theorem queued_tasks_finish_before_exit:
  assumes "ThreadPool_new n = Inr p0" and "pool_step\<^sup>*\<^sup>* p0 p" and "pool_step\<^sup>*\<^sup>* (shutdown p) p'"
  shows "((\<forall>w \<in> set (workers p'). w = Exited) \<longrightarrow>
            tasks p' = [] \<and>
            (\<exists>xs. finished p' = finished p @ xs \<and>
                  mset (tasks p) + in_flight (workers p) \<subseteq># mset xs)) \<and>
         (\<forall>q q' i. pool_step q q' \<and> i < length (workers q) \<and> workers q ! i \<noteq> Exited \<and>
                   workers q' ! i = Exited \<longrightarrow> stop q \<and> tasks q = []) \<and>
         (\<forall>i t q. i < length (workers p') \<and> workers p' ! i = Waiting \<and> tasks p' = t # q \<longrightarrow>
            pool_step p' (p'\<lparr>workers := (workers p')[i := Holding t], tasks := q\<rparr>)) \<and>
         ((\<exists>w \<in> set (workers p'). w \<noteq> Exited) \<longrightarrow>
            (\<exists>p''. pool_step p' p'' \<and> pool_work p'' < pool_work p')) \<and>
         (\<forall>p''. pool_step p' p'' \<longrightarrow> p'' = p' \<or> pool_work p'' < pool_work p') \<and>
         (\<exists>p''. pool_step\<^sup>*\<^sup>* p' p'' \<and> (\<forall>w \<in> set (workers p''). w = Exited) \<and>
            tasks p'' = [] \<and>
            (\<exists>xs. finished p'' = finished p @ xs \<and>
                  mset (tasks p) + in_flight (workers p) \<subseteq># mset xs))"
proof -
  have stop: "stop p'"
    by (rule pool_steps_stop [OF assms(3)]) (simp add: shutdown_def)
  have a: "(\<forall>w \<in> set (workers p'). w = Exited) \<longrightarrow>
            tasks p' = [] \<and>
            (\<exists>xs. finished p' = finished p @ xs \<and>
                  mset (tasks p) + in_flight (workers p) \<subseteq># mset xs)"
    using drained_all_finished [OF assms] by blast
  have b: "\<forall>q q' i. pool_step q q' \<and> i < length (workers q) \<and> workers q ! i \<noteq> Exited \<and>
                   workers q' ! i = Exited \<longrightarrow> stop q \<and> tasks q = []"
    using exit_only_when_stopped_and_empty by blast
  have c: "\<forall>i t q. i < length (workers p') \<and> workers p' ! i = Waiting \<and> tasks p' = t # q \<longrightarrow>
            pool_step p' (p'\<lparr>workers := (workers p')[i := Holding t], tasks := q\<rparr>)"
    by (auto intro: step_critical critical_takes_front)
  have d: "(\<exists>w \<in> set (workers p'). w \<noteq> Exited) \<longrightarrow>
            (\<exists>p''. pool_step p' p'' \<and> pool_work p'' < pool_work p')"
  proof
    assume "\<exists>w \<in> set (workers p'). w \<noteq> Exited"
    then obtain i where "i < length (workers p')" "workers p' ! i \<noteq> Exited"
      by (auto simp: in_set_conv_nth)
    then show "\<exists>p''. pool_step p' p'' \<and> pool_work p'' < pool_work p'"
      by (rule pool_progress [OF stop])
  qed
  have e: "\<forall>p''. pool_step p' p'' \<longrightarrow> p'' = p' \<or> pool_work p'' < pool_work p'"
    using pool_step_work stop by blast
  have f: "\<exists>p''. pool_step\<^sup>*\<^sup>* p' p'' \<and> (\<forall>w \<in> set (workers p''). w = Exited) \<and>
            tasks p'' = [] \<and>
            (\<exists>xs. finished p'' = finished p @ xs \<and>
                  mset (tasks p) + in_flight (workers p) \<subseteq># mset xs)"
  proof -
    from pool_drains [OF stop] obtain p'' where
      r: "pool_step\<^sup>*\<^sup>* p' p''" and ex: "\<forall>w \<in> set (workers p''). w = Exited" by blast
    from assms(3) r have "pool_step\<^sup>*\<^sup>* (shutdown p) p''" by simp
    from drained_all_finished [OF assms(1,2) this ex] r ex show ?thesis by blast
  qed
  from a b c d e f show ?thesis by (intro conjI)
qed

theorem queued_tasks_finish_before_exit_witness:
  "tasks pool_drained = [] \<and>
   (\<exists>xs. finished pool_drained = finished pool_queued @ xs \<and>
         mset (tasks pool_queued) + in_flight (workers pool_queued) \<subseteq># mset xs)"
proof -
  let ?p0 = "\<lparr>workers = [Waiting], tasks = [], stop = False, active_count = 0, pool_size = 1,
      finished = []\<rparr> :: nat ThreadPool"
  let ?p2 = "\<lparr>workers = [Holding 7], tasks = [], stop = True, active_count = 0, pool_size = 1,
      finished = []\<rparr> :: nat ThreadPool"
  let ?p3 = "\<lparr>workers = [Running 7], tasks = [], stop = True, active_count = 1, pool_size = 1,
      finished = []\<rparr> :: nat ThreadPool"
  let ?p4 = "\<lparr>workers = [Waiting], tasks = [], stop = True, active_count = 0, pool_size = 1,
      finished = [7]\<rparr> :: nat ThreadPool"
  have n: "ThreadPool_new 1 = Inr ?p0"
    by (simp add: ThreadPool_new_def)
  have "enqueue ?p0 (Some 7) = Inr pool_queued"
    by (simp add: enqueue_def pool_queued_def)
  then have s1: "pool_step\<^sup>*\<^sup>* ?p0 pool_queued"
    by (intro r_into_rtranclp step_enqueue)
  have "worker_critical (shutdown pool_queued) 0 = Some ?p2"
    by (simp add: worker_critical_def shutdown_def pool_queued_def)
  then have s2: "pool_step (shutdown pool_queued) ?p2"
    by (intro step_critical [of 0]) (simp_all add: shutdown_def pool_queued_def)
  have "pool_step ?p2 (worker_begin ?p2 0 7)"
    by (rule step_begin) simp_all
  then have s3: "pool_step ?p2 ?p3" by (simp add: worker_begin_def int32_wrap_def)
  have "pool_step ?p3 (worker_end ?p3 0 7)"
    by (rule step_end) simp_all
  then have s4: "pool_step ?p3 ?p4" by (simp add: worker_end_def int32_wrap_def)
  have "worker_critical ?p4 0 = Some pool_drained"
    by (simp add: worker_critical_def pool_drained_def)
  then have s5: "pool_step ?p4 pool_drained"
    by (intro step_critical [of 0]) simp_all
  from s2 s3 s4 s5 have r: "pool_step\<^sup>*\<^sup>* (shutdown pool_queued) pool_drained"
    by (meson rtranclp.rtrancl_into_rtrancl rtranclp.rtrancl_refl)
  have e: "\<forall>w \<in> set (workers pool_drained). w = Exited"
    by (simp add: pool_drained_def)
  from queued_tasks_finish_before_exit [OF n s1 r] e show ?thesis by blast
qed

section \<open>Broadcaster and message loop\<close>

lemma send_loop_eq:
  "send_loop net msg s cl (failed, m, w) =
     (failed @ [k \<leftarrow> map fst (filter (\<lambda>(fd, ci). fd \<noteq> s \<and> active ci) cl). \<not> 0 < net k],
      m\<lparr>messages_sent := messages_sent m +
           of_nat (length [k \<leftarrow> map fst (filter (\<lambda>(fd, ci). fd \<noteq> s \<and> active ci) cl). 0 < net k])\<rparr>,
      w @ map (\<lambda>(k, ci). (k, msg, net k)) (filter (\<lambda>(fd, ci). fd \<noteq> s \<and> active ci) cl))"
proof (induction cl arbitrary: failed m w)
  case Nil
  then show ?case by simp
next
  case (Cons a cl)
  obtain fd ci where a: "a = (fd, ci)" by (cases a)
  show ?case
    unfolding a by (simp add: Cons.IH Let_def)
qed

lemma set_inactive_keys: "map fst (set_inactive fd cl) = map fst cl"
  by (induction fd cl rule: set_inactive.induct) simp_all

lemma set_inactive_map:
  "distinct (map fst cl) \<Longrightarrow>
   set_inactive fd cl = map (\<lambda>(k, ci). if k = fd then (k, ci\<lparr>active := False\<rparr>) else (k, ci)) cl"
proof (induction fd cl rule: set_inactive.induct)
  case (1 fd)
  then show ?case by simp
next
  case (2 fd k ci rest)
  show ?case
  proof (cases "k = fd")
    case True
    with "2.prems" have "fd \<notin> fst ` set rest" by simp
    then have "map (\<lambda>(k, ci). if k = fd then (k, ci\<lparr>active := False\<rparr>) else (k, ci)) rest = rest"
      by (intro map_idI) (auto simp: rev_image_eqI)
    with True show ?thesis by simp
  next
    case False
    with 2 show ?thesis by simp
  qed
qed

lemma cleanup_pass_keys: "map fst (cleanup_pass fs cl) = map fst cl"
  unfolding cleanup_pass_def
  by (induction fs arbitrary: cl) (simp_all add: set_inactive_keys)

lemma cleanup_pass_map:
  "distinct (map fst cl) \<Longrightarrow>
   cleanup_pass fs cl
     = map (\<lambda>(k, ci). if k \<in> set fs then (k, ci\<lparr>active := False\<rparr>) else (k, ci)) cl"
proof (induction fs arbitrary: cl)
  case Nil
  then show ?case by (simp add: cleanup_pass_def case_prod_beta)
next
  case (Cons f fs)
  have d: "distinct (map fst (set_inactive f cl))"
    using Cons.prems by (simp add: set_inactive_keys)
  have "cleanup_pass (f # fs) cl = cleanup_pass fs (set_inactive f cl)"
    by (simp add: cleanup_pass_def)
  also have "\<dots> = map (\<lambda>(k, ci). if k \<in> set fs then (k, ci\<lparr>active := False\<rparr>) else (k, ci))
                     (set_inactive f cl)"
    by (rule Cons.IH [OF d])
  also have "\<dots> = map (\<lambda>(k, ci). if k \<in> set (f # fs) then (k, ci\<lparr>active := False\<rparr>) else (k, ci)) cl"
    unfolding set_inactive_map [OF Cons.prems] by (auto simp: case_prod_beta)
  finally show ?case .
qed

lemma broadcast_send_pass_eq:
  "broadcast_send_pass net srv msg s =
     ([k \<leftarrow> map fst (peers srv s). \<not> 0 < net k],
      srv\<lparr>metrics := (metrics srv)\<lparr>messages_sent := messages_sent (metrics srv) +
                         of_nat (length [k \<leftarrow> map fst (peers srv s). 0 < net k])\<rparr>,
          wire := wire srv @ map (\<lambda>(k, ci). (k, msg, net k)) (peers srv s)\<rparr>)"
  by (simp add: broadcast_send_pass_def send_loop_eq peers_def)

lemma broadcast_message_eq:
  assumes "distinct (map fst (clients srv))"
  shows "broadcast_message net now srv msg s =
     srv\<lparr>metrics := (metrics srv)\<lparr>messages_sent := messages_sent (metrics srv) +
                         of_nat (length [k \<leftarrow> map fst (peers srv s). 0 < net k])\<rparr>,
         wire := wire srv @ map (\<lambda>(k, ci). (k, msg, net k)) (peers srv s),
         clients := map (\<lambda>(k, ci). if k \<in> set [k \<leftarrow> map fst (peers srv s). \<not> 0 < net k]
                                   then (k, ci\<lparr>active := False\<rparr>) else (k, ci)) (clients srv),
         message_cache := snd (insert_cache (message_cache srv) (msg_sender msg) (payload msg)
                                 (msg_timestamp msg) now)\<rparr>"
  by (simp add: broadcast_message_def broadcast_send_pass_eq cleanup_pass_map [OF assms] Let_def)

lemma broadcast_message_cache:
  "message_cache (broadcast_message net now srv msg s) =
     snd (insert_cache (message_cache srv) (msg_sender msg) (payload msg) (msg_timestamp msg) now)"
  by (simp add: broadcast_message_def broadcast_send_pass_eq Let_def)

lemma broadcast_message_keys:
  "map fst (clients (broadcast_message net now srv msg s)) = map fst (clients srv)"
  by (simp add: broadcast_message_def broadcast_send_pass_eq Let_def cleanup_pass_keys)

lemma filter_key_distinct:
  "distinct (map fst xs) \<Longrightarrow> (k, v) \<in> set xs \<Longrightarrow> filter (\<lambda>x. fst x = k) xs = [(k, v)]"
proof (induction xs)
  case Nil
  then show ?case by simp
next
  case (Cons a xs)
  show ?case
  proof (cases "a = (k, v)")
    case True
    with Cons.prems have "k \<notin> fst ` set xs" by auto
    then have "filter (\<lambda>x. fst x = k) xs = []"
      by (auto simp: filter_empty_conv)
    with True show ?thesis by simp
  next
    case False
    with Cons.prems have in_xs: "(k, v) \<in> set xs" by auto
    with Cons.prems have "fst a \<noteq> k" by (auto simp: rev_image_eqI)
    with Cons in_xs show ?thesis by simp
  qed
qed

lemma all_but_one_pass:
  assumes "distinct xs" "f \<in> set xs" "\<not> P f" "\<forall>k \<in> set xs. k \<noteq> f \<longrightarrow> P k"
  shows "length (filter P xs) = length xs - 1" and "set (filter (\<lambda>k. \<not> P k) xs) = {f}"
proof -
  have "filter P xs = filter (\<lambda>k. k \<noteq> f) xs"
    using assms(3,4) by (intro filter_cong) auto
  also have "\<dots> = filter ((\<noteq>) f) xs"
    by (rule filter_cong) auto
  also have "\<dots> = remove1 f xs"
    using assms(1) by (simp add: distinct_remove1_removeAll removeAll_filter_not_eq)
  finally show "length (filter P xs) = length xs - 1"
    using assms(2) by (simp add: length_remove1)
  show "set (filter (\<lambda>k. \<not> P k) xs) = {f}"
    using assms(2,3,4) by auto
qed

lemma peers_distinct: "distinct (map fst (clients srv)) \<Longrightarrow> distinct (map fst (peers srv s))"
  unfolding peers_def by (rule distinct_map_filter)

lemma server_two_peers:
  "peers server_two 4 = [(5, \<lparr>info_socket_fd = 5, info_user_id = ''bob'', connect_time = 95,
                       last_active = 95, active = True\<rparr>)]"
  by (simp add: peers_def server_two_def)

lemma server_three_peers:
  "peers server_three 4 =
     [(5, \<lparr>info_socket_fd = 5, info_user_id = ''bob'', connect_time = 95,
            last_active = 95, active = True\<rparr>),
      (6, \<lparr>info_socket_fd = 6, info_user_id = ''carol'', connect_time = 97,
            last_active = 97, active = True\<rparr>)]"
  by (simp add: peers_def server_three_def)

lemma bob_joined_id: "generate_message_id ''bob'' 7 = ''bob_7''"
  by (simp add: generate_message_id_def to_string_def dec_digits.simps)

subsection \<open>C6\<close>

text \<open>
  Claim C6. Let the registry have distinct handles, and let a broadcast have \<open>K\<close> peers
  (active connections other than the sender) of which exactly one, \<open>f\<close>, has a failing
  \<^verbatim>\<open>send\<close> (a result that is not positive). Then after the broadcast the registry is the
  old one with the active flag of \<open>f\<close> cleared and nothing else changed; the sends made
  by the call are one per peer, in registry order, and to nobody else; each peer is
  sent the message exactly once, with a positive result for every peer but \<open>f\<close>; and the
  counter of sent messages has grown by \<open>K - 1\<close>.
\<close>

theorem broadcast_one_failure:
  assumes "distinct (map fst (clients srv))"
    and "(f, fi) \<in> set (peers srv s)" and "net f \<le> 0"
    and "\<forall>(k, ci) \<in> set (peers srv s). k \<noteq> f \<longrightarrow> 0 < net k"
  shows "clients (broadcast_message net now srv msg s)
           = map (\<lambda>(k, ci). if k = f then (k, ci\<lparr>active := False\<rparr>) else (k, ci)) (clients srv) \<and>
         wire (broadcast_message net now srv msg s)
           = wire srv @ map (\<lambda>(k, ci). (k, msg, net k)) (peers srv s) \<and>
         (\<forall>(k, ci) \<in> set (peers srv s).
            filter (\<lambda>x. fst x = k) (drop (length (wire srv)) (wire (broadcast_message net now srv msg s)))
              = [(k, msg, net k)] \<and> (k \<noteq> f \<longrightarrow> 0 < net k)) \<and>
         messages_sent (metrics (broadcast_message net now srv msg s))
           = messages_sent (metrics srv) + of_nat (length (peers srv s) - 1)"
proof -
  let ?keys = "map fst (peers srv s)"
  have dk: "distinct ?keys" by (rule peers_distinct [OF assms(1)])
  have fk: "f \<in> set ?keys" using assms(2) by (auto simp: rev_image_eqI)
  have nf: "\<not> 0 < net f" using assms(3) by simp
  have ok: "\<forall>k \<in> set ?keys. k \<noteq> f \<longrightarrow> 0 < net k" using assms(4) by auto
  note one = all_but_one_pass [of ?keys f "\<lambda>k. 0 < net k", OF dk fk nf ok]
  note eq = broadcast_message_eq [OF assms(1), of net now msg s]
  have c: "clients (broadcast_message net now srv msg s)
           = map (\<lambda>(k, ci). if k = f then (k, ci\<lparr>active := False\<rparr>) else (k, ci)) (clients srv)"
    unfolding eq using one(2) by simp
  have w: "wire (broadcast_message net now srv msg s)
           = wire srv @ map (\<lambda>(k, ci). (k, msg, net k)) (peers srv s)"
    unfolding eq by simp
  have o: "filter (\<lambda>x. fst x = k) (drop (length (wire srv)) (wire (broadcast_message net now srv msg s)))
              = [(k, msg, net k)] \<and> (k \<noteq> f \<longrightarrow> 0 < net k)"
    if "(k, ci) \<in> set (peers srv s)" for k ci
  proof -
    have "filter (\<lambda>x. fst x = k) (map (\<lambda>(k, ci). (k, msg, net k)) (peers srv s))
          = map (\<lambda>(k, ci). (k, msg, net k)) (filter (\<lambda>x. fst x = k) (peers srv s))"
      by (simp add: filter_map comp_def case_prod_beta)
    also have "\<dots> = [(k, msg, net k)]"
      unfolding filter_key_distinct [OF dk that] by simp
    finally show ?thesis using that assms(4) unfolding w by auto
  qed
  have m: "messages_sent (metrics (broadcast_message net now srv msg s))
           = messages_sent (metrics srv) + of_nat (length (peers srv s) - 1)"
    unfolding eq using one(1) by simp
  from c w o m show ?thesis by blast
qed

theorem broadcast_one_failure_witness:
  "length (peers server_three 4) = 2 \<and>
   clients (broadcast_message net_one_down 100 server_three hello_msg 4)
     = [(4, \<lparr>info_socket_fd = 4, info_user_id = ''alice'', connect_time = 90,
              last_active = 90, active = True\<rparr>),
        (5, \<lparr>info_socket_fd = 5, info_user_id = ''bob'', connect_time = 95,
              last_active = 95, active = False\<rparr>),
        (6, \<lparr>info_socket_fd = 6, info_user_id = ''carol'', connect_time = 97,
              last_active = 97, active = True\<rparr>)] \<and>
   wire (broadcast_message net_one_down 100 server_three hello_msg 4)
     = [(5, hello_msg, - 1), (6, hello_msg, sizeof_Message)] \<and>
   messages_sent (metrics (broadcast_message net_one_down 100 server_three hello_msg 4)) = 1"
proof -
  have d: "distinct (map fst (clients server_three))" by (simp add: server_three_def)
  have p: "(5, \<lparr>info_socket_fd = 5, info_user_id = ''bob'', connect_time = 95,
                       last_active = 95, active = True\<rparr>) \<in> set (peers server_three 4)"
    by (simp add: server_three_peers)
  have n: "net_one_down 5 \<le> 0" by (simp add: net_one_down_def)
  have o: "\<forall>(k, ci) \<in> set (peers server_three 4). k \<noteq> 5 \<longrightarrow> 0 < net_one_down k"
    by (simp add: server_three_peers net_one_down_def sizeof_Message_def)
  from broadcast_one_failure [OF d p n o, of 100 hello_msg]
  show ?thesis
    by (simp add: server_three_peers) (simp add: server_three_def net_one_down_def)
qed

subsection \<open>C7\<close>

text \<open>
  The claim as stated fails: on the server with connections 4 and 5, a broadcast from 4
  whose send to 5 fails leaves both handles in the registry. No pass of
  \<open>broadcast_message\<close> erases an entry.
\<close>

theorem failed_connection_stays_registered:
  "net_down 5 \<le> 0 \<and> 5 \<in> fst ` set (peers server_two 4) \<and>
   map fst (clients (broadcast_message net_down 100 server_two hello_msg 4)) = [4, 5]"
  by (simp add: broadcast_message_keys server_two_peers) (simp add: server_two_def net_down_def)

text \<open>
  Claim C7, amended. A failed send removes nothing. The first pass (the iteration over the
  registry) leaves the registry as it is; after the whole call the registry holds the
  same handles in the same order, and each connection is active exactly when it was
  active before and was not sent to with a failing result: the second pass clears the
  active flag of the connections whose send failed and erases none.
\<close>

theorem failed_send_flags_inactive_keeps_registry:
  assumes "distinct (map fst (clients srv))"
  shows "clients (snd (broadcast_send_pass net srv msg s)) = clients srv \<and>
         map fst (clients (broadcast_message net now srv msg s)) = map fst (clients srv) \<and>
         (\<forall>(k, ci) \<in> set (clients srv).
            (k, ci\<lparr>active := active ci \<and> (k = s \<or> 0 < net k)\<rparr>)
              \<in> set (clients (broadcast_message net now srv msg s)))"
proof -
  have a: "clients (snd (broadcast_send_pass net srv msg s)) = clients srv"
    by (simp add: broadcast_send_pass_eq)
  define g :: "int \<times> ClientInfo \<Rightarrow> int \<times> ClientInfo"
    where "g = (\<lambda>(k, ci). if k \<in> set [k \<leftarrow> map fst (peers srv s). \<not> 0 < net k]
                                   then (k, ci\<lparr>active := False\<rparr>) else (k, ci))"
  have cl: "clients (broadcast_message net now srv msg s) = map g (clients srv)"
    unfolding g_def broadcast_message_eq [OF assms] by simp
  have b: "(k, ci\<lparr>active := active ci \<and> (k = s \<or> 0 < net k)\<rparr>)
              \<in> set (clients (broadcast_message net now srv msg s))"
    if "(k, ci) \<in> set (clients srv)" for k ci
  proof -
    have eq: "(k, ci\<lparr>active := active ci \<and> (k = s \<or> 0 < net k)\<rparr>) = g (k, ci)"
    proof (cases "active ci \<and> k \<noteq> s \<and> \<not> 0 < net k")
      case True
      with that have "(k, ci) \<in> set (peers srv s)" by (simp add: peers_def)
      then have "k \<in> fst ` set (peers srv s)" by (auto simp: rev_image_eqI)
      with True show ?thesis by (simp add: g_def)
    next
      case False
      have "k \<notin> set [k \<leftarrow> map fst (peers srv s). \<not> 0 < net k]"
      proof
        assume "k \<in> set [k \<leftarrow> map fst (peers srv s). \<not> 0 < net k]"
        then obtain ci' where "(k, ci') \<in> set (peers srv s)" "\<not> 0 < net k" by auto
        then have "(k, ci') \<in> set (clients srv)" "k \<noteq> s" "active ci'" by (auto simp: peers_def)
        with that assms have "ci' = ci" by (meson eq_key_imp_eq_value)
        with False \<open>k \<noteq> s\<close> \<open>active ci'\<close> \<open>\<not> 0 < net k\<close> show False by simp
      qed
      then have "g (k, ci) = (k, ci)" unfolding g_def by (simp only: case_prod_conv if_False)
      moreover have "ci\<lparr>active := active ci \<and> (k = s \<or> 0 < net k)\<rparr> = ci"
        using False by (cases "active ci") auto
      ultimately show ?thesis by simp
    qed
    have "g (k, ci) \<in> g ` set (clients srv)" using that by (rule imageI)
    then show ?thesis unfolding cl eq by simp
  qed
  from a broadcast_message_keys [of net now srv msg s] b show ?thesis by blast
qed

theorem failed_send_flags_inactive_keeps_registry_witness:
  "clients (snd (broadcast_send_pass net_down server_two hello_msg 4)) = clients server_two \<and>
   map fst (clients (broadcast_message net_down 100 server_two hello_msg 4)) = [4, 5] \<and>
   (5, \<lparr>info_socket_fd = 5, info_user_id = ''bob'', connect_time = 95,
         last_active = 95, active = False\<rparr>)
     \<in> set (clients (broadcast_message net_down 100 server_two hello_msg 4))"
proof -
  have d: "distinct (map fst (clients server_two))" by (simp add: server_two_def)
  have m: "(5, \<lparr>info_socket_fd = 5, info_user_id = ''bob'', connect_time = 95,
                last_active = 95, active = True\<rparr>) \<in> set (clients server_two)"
    by (simp add: server_two_def)
  have k: "map fst (clients server_two) = [4, 5]" by (simp add: server_two_def)
  note t = failed_send_flags_inactive_keeps_registry [OF d, of net_down hello_msg 4 100]
  from t m have "(5, \<lparr>info_socket_fd = 5, info_user_id = ''bob'', connect_time = 95,
         last_active = 95, active = True\<rparr>\<lparr>active := True \<and> ((5::int) = 4 \<or> 0 < net_down 5)\<rparr>)
     \<in> set (clients (broadcast_message net_down 100 server_two hello_msg 4))"
    by fastforce
  then have "(5, \<lparr>info_socket_fd = 5, info_user_id = ''bob'', connect_time = 95,
         last_active = 95, active = False\<rparr>)
     \<in> set (clients (broadcast_message net_down 100 server_two hello_msg 4))"
    by (simp add: net_down_def)
  with t k show ?thesis by simp
qed

subsection \<open>C8\<close>

text \<open>
  The claim as stated fails: a frame of 10 bytes makes the loop body end by \<^verbatim>\<open>break\<close>
  and the loop return with the server unchanged, so the frame of full size that follows
  it is never counted as received, while the same frame alone is.
\<close>

theorem short_frame_ends_loop:
  "0 < recv_bytes short_frame \<and> recv_bytes short_frame \<noteq> sizeof_Message \<and>
   loop_iteration short_frame server_two ''bob'' 5 = Some (Break, server_two) \<and>
   map_option (messages_received \<circ> metrics)
     (message_loop server_two ''bob'' 5 [short_frame, full_frame]) = Some 0 \<and>
   map_option (messages_received \<circ> metrics)
     (message_loop server_two ''bob'' 5 [full_frame]) = Some 1"
  by (simp add: loop_iteration_def short_frame_def full_frame_def sizeof_Message_def
      server_two_def Message_zero_def MSG_TEXT_def MSG_STATUS_def MSG_CACHE_TEST_def Let_def)

text \<open>
  Claim C8, amended. While the server is running, a received frame whose byte count is
  positive and differs from the size of the wire record is dropped without any change of
  the server state, and it ends the message loop of the connection by \<^verbatim>\<open>break\<close>: the loop
  returns at once and no later input of that connection is processed by it.
\<close>

theorem size_mismatch_breaks_loop:
  assumes "server_running e" and "0 < recv_bytes e" and "recv_bytes e \<noteq> sizeof_Message"
  shows "loop_iteration e srv uid client_socket = Some (Break, srv) \<and>
         message_loop srv uid client_socket (e # es) = Some srv"
  using assms by (simp add: loop_iteration_def)

theorem size_mismatch_breaks_loop_witness:
  "loop_iteration short_frame server_two ''bob'' 5 = Some (Break, server_two) \<and>
   message_loop server_two ''bob'' 5 [short_frame, full_frame] = Some server_two"
proof -
  have a: "server_running short_frame" "0 < recv_bytes short_frame"
    "recv_bytes short_frame \<noteq> sizeof_Message"
    by (simp_all add: short_frame_def sizeof_Message_def)
  from size_mismatch_breaks_loop [OF a] show ?thesis by blast
qed

subsection \<open>C10\<close>

text \<open>
  Claim C10. Every call of \<open>broadcast_message\<close>, for every message of whatever kind,
  every registry and every outcome of the sends, leaves the cache as the call
  \<open>insert(msg.sender, msg.payload, msg.timestamp)\<close> on the cache of before leaves it. The
  join notification of \<open>handle_client\<close> has kind \<^verbatim>\<open>MSG_JOIN\<close> and is inserted under
  the user and its timestamp; the leave notification, sent when the user identifier is
  not empty, has kind \<^verbatim>\<open>MSG_LEAVE\<close> and is inserted likewise.
\<close>

theorem broadcast_always_inserts:
  "message_cache (broadcast_message net now srv msg s)
     = snd (insert_cache (message_cache srv) (msg_sender msg) (payload msg) (msg_timestamp msg) now) \<and>
   msg_type (join_msg uid t) = MSG_JOIN \<and>
   message_cache (notify_join net now t srv uid client_socket)
     = snd (insert_cache (message_cache srv) (take 63 uid)
              (take (BUFFER_SIZE - 1) (uid @ '' has joined the chat'')) t now) \<and>
   msg_type (leave_msg uid t) = MSG_LEAVE \<and>
   message_cache (notify_leave net now t srv uid)
     = (if uid = [] then message_cache srv
        else snd (insert_cache (message_cache srv) (take 63 uid)
                    (take (BUFFER_SIZE - 1) (uid @ '' has left the chat'')) t now))"
  by (simp add: broadcast_message_cache notify_join_def notify_leave_def join_msg_def
      leave_msg_def set_sender_def Message_zero_def Let_def)

theorem broadcast_always_inserts_witness:
  "index_map (message_cache (notify_join net_down 8 7 server_two ''bob'' 5)) ''bob_7'' = Some 0 \<and>
   cache_size (message_cache (notify_join net_down 8 7 server_two ''bob'' 5)) = 1"
proof -
  have "message_cache (notify_join net_down 8 7 server_two ''bob'' 5)
     = snd (insert_cache (message_cache server_two) (take 63 ''bob'')
              (take (BUFFER_SIZE - 1) (''bob'' @ '' has joined the chat'')) 7 8)"
    using broadcast_always_inserts [of net_down 8 server_two hello_msg 4 "''bob''" 7 5] by blast
  then show ?thesis
    by (simp add: server_two_def MessageCache_init_def insert_cache_def bob_joined_id Let_def)
qed

end
